theory Spec2Isabelle
  imports Main "HOL-Library.Multiset"
begin

section \<open>The priority task queue: execution\_priority\_queue.hpp\<close>

text \<open>
  \<^verbatim>\<open>struct priority { high = 100; medium = 50; low = 10; }\<close>.
  A priority is a C++ \<^verbatim>\<open>int\<close>; the code only compares priorities (it never does
  arithmetic on them), so they are modelled as \<^typ>\<open>int\<close>.
\<close>

definition priority_high :: int where "priority_high = 100"
definition priority_medium :: int where "priority_medium = 50"
definition priority_low :: int where "priority_low = 10"

text \<open>
  The \<^verbatim>\<open>Function\<close> that \<^verbatim>\<open>add\<close> stores is an arbitrary closure. What a closure can do
  to the queue is call \<^verbatim>\<open>add\<close> on it and return, or raise. A task is therefore a label
  (which closure it is), the \<^verbatim>\<open>add\<close> calls it makes while it runs, and whether it ends by
  raising an exception.
\<close>

datatype task = Task (label: nat) (adds: "(int \<times> task) list") (throws: bool)

text \<open>\<^verbatim>\<open>queued_handler<Function>\<close>: the members \<^verbatim>\<open>priority_\<close> and \<^verbatim>\<open>function_\<close>.\<close>

datatype queued_handler = Queued_handler (priority: int) (func: task)

datatype error =
    task_error nat
  | length_error string

text \<open>
  The queue object: \<^verbatim>\<open>handlers_\<close>, the container of the \<^verbatim>\<open>std::priority_queue\<close>, and a
  log of the handlers whose \<^verbatim>\<open>execute()\<close> was called, in call order. The log is not in the
  C++ code; it makes the execution of tasks observable.
\<close>

record execution_priority_queue =
  handlers :: "queued_handler list"
  executed :: "queued_handler list"

text \<open>
  \<^verbatim>\<open>std::priority_queue\<close> with \<^verbatim>\<open>operator<\<close> comparing \<^verbatim>\<open>priority_\<close>. The standard library
  fixes that \<^verbatim>\<open>top()\<close> is an element that no other element exceeds, and that \<^verbatim>\<open>pop()\<close>
  removes the element \<^verbatim>\<open>top()\<close> returns; which of several elements of the same priority
  is on top is left to the heap. The choice is a parameter \<open>tp\<close> of the operations, and
  \<open>heap_top tp\<close> says that it picks a greatest element.
\<close>

type_synonym top_fn = "queued_handler list \<Rightarrow> queued_handler"

definition heap_top :: "top_fn \<Rightarrow> bool" where
  "heap_top tp =
     (\<forall>c. c \<noteq> [] \<longrightarrow> tp c \<in> set c \<and> (\<forall>h \<in> set c. priority h \<le> priority (tp c)))"

definition pq_empty :: "queued_handler list \<Rightarrow> bool" where
  "pq_empty c = (c = [])"

definition pq_push :: "queued_handler \<Rightarrow> queued_handler list \<Rightarrow> queued_handler list" where
  "pq_push h c = c @ [h]"

definition pq_pop :: "top_fn \<Rightarrow> queued_handler list \<Rightarrow> queued_handler list" where
  "pq_pop tp c = remove1 (tp c) c"

text \<open>One admissible choice of the top: the first of the greatest elements.\<close>

fun front_max :: top_fn where
  "front_max [h] = h"
| "front_max (h # hs) = (let m = front_max hs in if priority m \<le> priority h then h else m)"

text \<open>\<^verbatim>\<open>add(priority, function)\<close>: builds the handler and pushes it.\<close>

definition add :: "int \<Rightarrow> task \<Rightarrow> execution_priority_queue \<Rightarrow> execution_priority_queue" where
  "add p f q = q\<lparr>handlers := pq_push (Queued_handler p f) (handlers q)\<rparr>"

text \<open>
  \<^verbatim>\<open>queued_handler::execute()\<close> calls \<^verbatim>\<open>function_()\<close>: the task runs, makes its \<^verbatim>\<open>add\<close>
  calls, and returns or raises. An exception leaves the state as the task made it.
\<close>

definition execute ::
  "queued_handler \<Rightarrow> execution_priority_queue \<Rightarrow> (error + unit) \<times> execution_priority_queue" where
  "execute h q =
     (let q1 = q\<lparr>executed := executed q @ [h]\<rparr>;
          q2 = fold (\<lambda>(p, f). add p f) (adds (func h)) q1
      in (if throws (func h) then Inl (task_error (label (func h))) else Inr (), q2))"

text \<open>
  The three drain loops. A task can add tasks for ever, so the loops need not
  terminate: the result \<open>None\<close> is a loop that does not return. \<open>Some (Inl e, q)\<close> is an
  exception \<open>e\<close> leaving the loop with the queue in state \<open>q\<close>.

  \<^verbatim>\<open>while (!handlers_.empty()) { handlers_.top()->execute(); handlers_.pop(); }\<close>
\<close>

partial_function (option) execute_all ::
  "top_fn \<Rightarrow> execution_priority_queue \<Rightarrow> ((error + unit) \<times> execution_priority_queue) option" where
  "execute_all tp q =
     (if pq_empty (handlers q) then Some (Inr (), q)
      else case execute (tp (handlers q)) q of
             (Inl e, q') \<Rightarrow> Some (Inl e, q')
           | (Inr u, q') \<Rightarrow> execute_all tp (q'\<lparr>handlers := pq_pop tp (handlers q')\<rparr>))"

text \<open>
  \<^verbatim>\<open>execute_highest\<close>: the priority is read before the task runs, the task runs, the top
  is popped, and the loop is left after a task below \<^verbatim>\<open>priority::high\<close>. The result is
  \<^verbatim>\<open>!handlers_.empty()\<close>.
\<close>

partial_function (option) execute_highest ::
  "top_fn \<Rightarrow> execution_priority_queue \<Rightarrow> ((error + bool) \<times> execution_priority_queue) option" where
  "execute_highest tp q =
     (if pq_empty (handlers q) then Some (Inr (\<not> pq_empty (handlers q)), q)
      else let t = tp (handlers q); p = priority t in
           case execute t q of
             (Inl e, q') \<Rightarrow> Some (Inl e, q')
           | (Inr u, q') \<Rightarrow>
               (let q'' = q'\<lparr>handlers := pq_pop tp (handlers q')\<rparr>
                in if p < priority_high then Some (Inr (\<not> pq_empty (handlers q'')), q'')
                   else execute_highest tp q''))"

text \<open>\<^verbatim>\<open>execute_high\<close>: the loop is left before a task below \<^verbatim>\<open>priority::high\<close> runs.\<close>

partial_function (option) execute_high ::
  "top_fn \<Rightarrow> execution_priority_queue \<Rightarrow> ((error + unit) \<times> execution_priority_queue) option" where
  "execute_high tp q =
     (if pq_empty (handlers q) then Some (Inr (), q)
      else let t = tp (handlers q); p = priority t in
           if p < priority_high then Some (Inr (), q)
           else case execute t q of
                  (Inl e, q') \<Rightarrow> Some (Inl e, q')
                | (Inr u, q') \<Rightarrow> execute_high tp (q'\<lparr>handlers := pq_pop tp (handlers q')\<rparr>))"


text \<open>
  The loop of \<^verbatim>\<open>execute_high\<close> stopped after at most \<open>n\<close> rounds: the result is \<open>None\<close>
  when the loop is still running then, and the state is the state reached. It serves to
  say what has been executed at any moment of a call, also of a call that does not
  return.
\<close>

fun execute_high_bounded ::
  "nat \<Rightarrow> top_fn \<Rightarrow> execution_priority_queue \<Rightarrow> (error + unit) option \<times> execution_priority_queue" where
  "execute_high_bounded 0 tp q = (None, q)"
| "execute_high_bounded (Suc n) tp q =
     (if pq_empty (handlers q) then (Some (Inr ()), q)
      else let t = tp (handlers q); p = priority t in
           if p < priority_high then (Some (Inr ()), q)
           else case execute t q of
                  (Inl e, q') \<Rightarrow> (Some (Inl e), q')
                | (Inr u, q') \<Rightarrow> execute_high_bounded n tp (q'\<lparr>handlers := pq_pop tp (handlers q')\<rparr>))"

text \<open>
  \<^verbatim>\<open>class executor\<close>: a reference to the queue and a priority. The queue is passed to
  the verbs explicitly; \<open>context_id\<close> is the identity of the queue the executor refers to,
  which \<^verbatim>\<open>operator==\<close> compares. The allocator argument is not used by the code.
\<close>

record executor =
  context_id :: nat
  bound_priority :: int

definition executor_dispatch ::
  "executor \<Rightarrow> task \<Rightarrow> 'alloc \<Rightarrow> execution_priority_queue \<Rightarrow> execution_priority_queue" where
  "executor_dispatch ex f a q = add (bound_priority ex) f q"

definition executor_post ::
  "executor \<Rightarrow> task \<Rightarrow> 'alloc \<Rightarrow> execution_priority_queue \<Rightarrow> execution_priority_queue" where
  "executor_post ex f a q = add (bound_priority ex) f q"

definition executor_defer ::
  "executor \<Rightarrow> task \<Rightarrow> 'alloc \<Rightarrow> execution_priority_queue \<Rightarrow> execution_priority_queue" where
  "executor_defer ex f a q = add (bound_priority ex) f q"

definition executor_eq :: "executor \<Rightarrow> executor \<Rightarrow> bool" where
  "executor_eq a b = (context_id a = context_id b \<and> bound_priority a = bound_priority b)"

text \<open>Properties of the handlers of a queue that the statements below use.\<close>

definition no_adds :: "queued_handler \<Rightarrow> bool" where
  "no_adds h = (adds (func h) = [])"

definition raises :: "queued_handler \<Rightarrow> bool" where
  "raises h = throws (func h)"

definition by_priority :: "queued_handler list \<Rightarrow> bool" where
  "by_priority hs = sorted_wrt (\<lambda>a b. priority b \<le> priority a) hs"

definition is_high :: "queued_handler \<Rightarrow> bool" where
  "is_high h = (priority_high \<le> priority h)"

text \<open>
  \<open>drained c dn rest\<close>: of the handlers \<open>c\<close>, the handlers \<open>dn\<close> were taken off the top
  one after the other, none of them raising, and \<open>rest\<close> are left.
\<close>

definition drained ::
  "queued_handler list \<Rightarrow> queued_handler list \<Rightarrow> queued_handler list \<Rightarrow> bool" where
  "drained c dn rest =
     (mset c = mset dn + mset rest
      \<and> by_priority dn
      \<and> (\<forall>h \<in> set rest. \<forall>t \<in> set dn. priority h \<le> priority t)
      \<and> (\<forall>h \<in> set dn. \<not> raises h))"


text \<open>
  \<open>drain_outcome tp q r q'\<close>: what a drain call that started in \<open>q\<close> left behind when it
  ended in \<open>q'\<close> with result \<open>r\<close>. The handlers \<open>dn\<close> ran to completion, highest first, and
  they are exactly what is gone from the queue. After an exception the handler that
  raised was executed last, and it is still in the queue, on top.
\<close>

definition drain_outcome ::
  "top_fn \<Rightarrow> execution_priority_queue \<Rightarrow> error + 'a \<Rightarrow> execution_priority_queue \<Rightarrow> bool" where
  "drain_outcome tp q r q' =
     (\<exists>dn. mset (handlers q) = mset dn + mset (handlers q')
        \<and> list_all (\<lambda>h. \<not> raises h) dn
        \<and> by_priority dn
        \<and> (case r of
              Inr v \<Rightarrow> executed q' = executed q @ dn
            | Inl e \<Rightarrow>
                handlers q' \<noteq> []
                \<and> raises (tp (handlers q'))
                \<and> e = task_error (label (func (tp (handlers q'))))
                \<and> executed q' = executed q @ dn @ [tp (handlers q')]))"

section \<open>Signals and slots, as method.hpp and channel.hpp use them\<close>

text \<open>
  Both registries keep their entries in a \<^verbatim>\<open>boost::signals2::signal\<close>. What the code
  relies on is modelled here: a signal is a list of slots in call order; a slot carries
  its group (the priority given to \<^verbatim>\<open>connect\<close>, if any), the callback, and whether it
  is still connected; a \<^verbatim>\<open>connection\<close> is a weak reference to a slot (its identity \<open>slot_id\<close>),
  or empty. A call of the signal hands the connected slots, in order, to the signal's
  combiner (the dispatch policy); dereferencing the iterator runs the slot. The signal
  owns its combiner and applies this one object at every call: \<^verbatim>\<open>set_combiner\<close> stores
  a policy in the signal, which \<^verbatim>\<open>channel::set_dispatcher\<close> uses, in the words of its
  comment, to set a stateful dispatcher.

  A callback applied to the call's argument gives \<open>Inr r\<close> when it returns \<open>r\<close>, and
  \<open>Inl d\<close> when it raises, \<open>d\<close> being the text that
  \<^verbatim>\<open>boost::current_exception_diagnostic_information()\<close> yields for the exception.
\<close>

record ('a, 'r) slot =
  slot_group :: int
  slot_id :: nat
  slot_fn :: "'a \<Rightarrow> string + 'r"
  slot_connected :: bool

type_synonym connection = "nat option"

definition connected :: "connection \<Rightarrow> ('a, 'r) slot list \<Rightarrow> bool" where
  "connected c ss =
     (case c of None \<Rightarrow> False
      | Some i \<Rightarrow> list_ex (\<lambda>s. slot_id s = i \<and> slot_connected s) ss)"

definition disconnect :: "connection \<Rightarrow> ('a, 'r) slot list \<Rightarrow> ('a, 'r) slot list" where
  "disconnect c ss =
     (case c of None \<Rightarrow> ss
      | Some i \<Rightarrow> map (\<lambda>s. if slot_id s = i then s\<lparr>slot_connected := False\<rparr> else s) ss)"

text \<open>
  \<^verbatim>\<open>connect(group, slot)\<close> puts the slot behind the slots of its group and before the
  slots of greater groups; \<^verbatim>\<open>connect(slot)\<close> puts it at the back.
\<close>

fun connect_grouped :: "('a, 'r) slot \<Rightarrow> ('a, 'r) slot list \<Rightarrow> ('a, 'r) slot list" where
  "connect_grouped s [] = [s]"
| "connect_grouped s (x # xs) =
     (if slot_group s < slot_group x then s # x # xs else x # connect_grouped s xs)"

definition num_slots :: "('a, 'r) slot list \<Rightarrow> nat" where
  "num_slots ss = length (filter slot_connected ss)"

section \<open>The provider registry: method.hpp\<close>

text \<open>\<^verbatim>\<open>first_success_policy\<close>: the struct has one member, \<^verbatim>\<open>std::string err\<close>.\<close>

record first_success_policy =
  err :: string

definition no_result_prefix :: string where
  "no_result_prefix = ''No Result Available, All providers returned exceptions[''"

text \<open>The separator that the policy puts between two diagnostics: a double quote, a comma, a double quote.\<close>

definition err_separator :: string where
  "err_separator = [CHR 0x22, CHR '','', CHR 0x22]"

text \<open>
  The body of the \<^verbatim>\<open>catch\<close> block:
  \<^verbatim>\<open>if (!err.empty()) err += separator; err += diagnostic;\<close>
\<close>

definition append_diagnostic :: "string \<Rightarrow> string \<Rightarrow> string" where
  "append_diagnostic e d = (if e \<noteq> [] then e @ err_separator else e) @ d"

text \<open>
  \<^verbatim>\<open>first_success_policy::operator()(first, last)\<close>. The range is the list of connected
  slots, \<open>args\<close> the arguments of the call. The log \<open>lg\<close> gets the identity of each slot
  that is run. The member \<^verbatim>\<open>err\<close> is read and written in place.
\<close>

fun first_success ::
  "first_success_policy \<Rightarrow> 'a \<Rightarrow> ('a, 'r) slot list \<Rightarrow> nat list \<Rightarrow>
   (error + 'r) \<times> first_success_policy \<times> nat list" where
  "first_success pol args [] lg =
     (Inl (length_error (no_result_prefix @ err pol @ '']'')), pol, lg)"
| "first_success pol args (s # rest) lg =
     (case slot_fn s args of
        Inr r \<Rightarrow> (Inr r, pol, lg @ [slot_id s])
      | Inl d \<Rightarrow>
          first_success (pol\<lparr>err := append_diagnostic (err pol) d\<rparr>) args rest
            (lg @ [slot_id s]))"

text \<open>
  \<^verbatim>\<open>class method\<close>: the member \<^verbatim>\<open>_signal\<close>, that is its slots and its combiner, the policy
  object that the signal keeps and calls at every invocation. \<open>next_provider\<close> numbers the
  slots; \<open>providers_run\<close> is the log of the providers run, which is not in the C++ code.
\<close>

record ('a, 'r) appbase_method =
  providers :: "('a, 'r) slot list"
  combiner :: first_success_policy
  next_provider :: nat
  providers_run :: "nat list"

definition new_method :: "('a, 'r) appbase_method" where
  "new_method = \<lparr>providers = [], combiner = \<lparr>err = []\<rparr>, next_provider = 0, providers_run = []\<rparr>"

text \<open>\<^verbatim>\<open>method::handle\<close>: the member \<^verbatim>\<open>_handle\<close>, a \<^verbatim>\<open>boost::signals2::connection\<close>.\<close>

record handle =
  handle_connection :: connection

text \<open>\<^verbatim>\<open>register_provider(provider, priority)\<close>: \<^verbatim>\<open>handle(_signal.connect(priority, provider))\<close>.\<close>

definition register_provider ::
  "('a \<Rightarrow> string + 'r) \<Rightarrow> int \<Rightarrow> ('a, 'r) appbase_method \<Rightarrow> handle \<times> ('a, 'r) appbase_method" where
  "register_provider provider prio m =
     (\<lparr>handle_connection = Some (next_provider m)\<rparr>,
      m\<lparr>providers :=
           connect_grouped
             \<lparr>slot_group = prio, slot_id = next_provider m, slot_fn = provider,
              slot_connected = True\<rparr>
             (providers m),
        next_provider := Suc (next_provider m)\<rparr>)"

text \<open>A sequence of registrations, each with its provider and its priority.\<close>

definition register_all ::
  "(('a \<Rightarrow> string + 'r) \<times> int) list \<Rightarrow> ('a, 'r) appbase_method \<Rightarrow> ('a, 'r) appbase_method" where
  "register_all regs m = fold (\<lambda>(provider, prio) m. snd (register_provider provider prio m)) regs m"

text \<open>\<^verbatim>\<open>method::operator()\<close>: \<^verbatim>\<open>_signal(args...)\<close>, the policy run over the connected slots.\<close>

definition invoke :: "('a, 'r) appbase_method \<Rightarrow> 'a \<Rightarrow> (error + 'r) \<times> ('a, 'r) appbase_method" where
  "invoke m args =
     (case first_success (combiner m) args (filter slot_connected (providers m)) (providers_run m) of
        (res, pol, lg) \<Rightarrow> (res, m\<lparr>combiner := pol, providers_run := lg\<rparr>))"

text \<open>\<^verbatim>\<open>handle::unregister()\<close>: \<^verbatim>\<open>if (_handle.connected()) _handle.disconnect();\<close>\<close>

definition unregister :: "handle \<Rightarrow> ('a, 'r) appbase_method \<Rightarrow> ('a, 'r) appbase_method" where
  "unregister h m =
     (if connected (handle_connection h) (providers m)
      then m\<lparr>providers := disconnect (handle_connection h) (providers m)\<rparr>
      else m)"

text \<open>\<^verbatim>\<open>handle::~handle()\<close> calls \<^verbatim>\<open>unregister()\<close>.\<close>

definition destroy_handle :: "handle \<Rightarrow> ('a, 'r) appbase_method \<Rightarrow> ('a, 'r) appbase_method" where
  "destroy_handle h m = unregister h m"

text \<open>
  \<^verbatim>\<open>handle(handle&&) = default\<close>: the connection is moved, and a moved-from connection is
  empty. The result is the new handle and the source as the move leaves it.
\<close>

definition move_handle :: "handle \<Rightarrow> handle \<times> handle" where
  "move_handle h = (\<lparr>handle_connection = handle_connection h\<rparr>, \<lparr>handle_connection = None\<rparr>)"

section \<open>The subscriber registry: channel.hpp\<close>

text \<open>
  \<^verbatim>\<open>class channel\<close>: the slots of the signal it derives from, and \<^verbatim>\<open>ios_ptr\<close>. Of the
  \<^verbatim>\<open>io_service\<close> the code uses \<^verbatim>\<open>post\<close> alone: \<open>ios_posted\<close> is the queue of the tasks posted
  and not yet run; a task posted by \<^verbatim>\<open>publish\<close> is the lambda that holds its copy of the
  data. \<open>data_copies\<close> counts the copies of a payload that \<^verbatim>\<open>publish\<close> makes, and
  \<open>delivered\<close> logs each subscriber call (which slot, which data); both are not in the C++
  code.
\<close>

record 'd channel =
  subscribers :: "('d, unit) slot list"
  next_subscriber :: nat
  ios_posted :: "'d list"
  data_copies :: nat
  delivered :: "(nat \<times> 'd) list"

definition new_channel :: "'d channel" where
  "new_channel =
     \<lparr>subscribers = [], next_subscriber = 0, ios_posted = [], data_copies = 0, delivered = []\<rparr>"

text \<open>\<^verbatim>\<open>drop_exceptions::operator()(first, last)\<close>: every slot is run, whatever it raises.\<close>

fun drop_exceptions ::
  "'d \<Rightarrow> ('d, unit) slot list \<Rightarrow> (nat \<times> 'd) list \<Rightarrow> (error + unit) \<times> (nat \<times> 'd) list" where
  "drop_exceptions data [] log = (Inr (), log)"
| "drop_exceptions data (s # rest) log =
     (case slot_fn s data of
        Inr u \<Rightarrow> drop_exceptions data rest (log @ [(slot_id s, data)])
      | Inl d \<Rightarrow> drop_exceptions data rest (log @ [(slot_id s, data)]))"

text \<open>\<^verbatim>\<open>has_subscribers()\<close>: \<^verbatim>\<open>num_slots() > 0\<close>.\<close>

definition has_subscribers :: "'d channel \<Rightarrow> bool" where
  "has_subscribers ch = (0 < num_slots (subscribers ch))"

text \<open>\<^verbatim>\<open>publish(data)\<close>: \<^verbatim>\<open>if (has_subscribers()) ios_ptr->post([this, data]() {...});\<close>\<close>

definition publish :: "'d \<Rightarrow> 'd channel \<Rightarrow> 'd channel" where
  "publish data ch =
     (if has_subscribers ch
      then ch\<lparr>ios_posted := ios_posted ch @ [data], data_copies := Suc (data_copies ch)\<rparr>
      else ch)"

text \<open>The body of the posted lambda: the signal is called with the copy of the data.\<close>

definition fan_out :: "'d \<Rightarrow> 'd channel \<Rightarrow> (error + unit) \<times> 'd channel" where
  "fan_out data ch =
     (case drop_exceptions data (filter slot_connected (subscribers ch)) (delivered ch) of
        (res, log) \<Rightarrow> (res, ch\<lparr>delivered := log\<rparr>))"

text \<open>The dispatcher runs the oldest posted task, if there is one.\<close>

definition run_posted :: "'d channel \<Rightarrow> (error + unit) \<times> 'd channel" where
  "run_posted ch =
     (case ios_posted ch of
        [] \<Rightarrow> (Inr (), ch)
      | data # rest \<Rightarrow> fan_out data (ch\<lparr>ios_posted := rest\<rparr>))"

text \<open>\<^verbatim>\<open>subscribe(cb)\<close>: \<^verbatim>\<open>this->connect(cb)\<close>; the result is the connection itself.\<close>

definition subscribe :: "('d \<Rightarrow> string + unit) \<Rightarrow> 'd channel \<Rightarrow> connection \<times> 'd channel" where
  "subscribe cb ch =
     (Some (next_subscriber ch),
      ch\<lparr>subscribers := subscribers ch @
           [\<lparr>slot_group = 0, slot_id = next_subscriber ch, slot_fn = cb, slot_connected = True\<rparr>],
         next_subscriber := Suc (next_subscriber ch)\<rparr>)"

text \<open>\<^verbatim>\<open>unsubscribe(handle)\<close>: \<^verbatim>\<open>handle.disconnect()\<close>.\<close>

definition unsubscribe :: "connection \<Rightarrow> 'd channel \<Rightarrow> 'd channel" where
  "unsubscribe c ch = ch\<lparr>subscribers := disconnect c (subscribers ch)\<rparr>"

text \<open>
  The end of the life of a \<^verbatim>\<open>boost::signals2::connection\<close>: the class has no destructor
  that disconnects (that is \<^verbatim>\<open>scoped_connection\<close>), so the channel is as it was.
\<close>

definition destroy_connection :: "connection \<Rightarrow> 'd channel \<Rightarrow> 'd channel" where
  "destroy_connection c ch = ch"

section \<open>The drain loops on tasks that add nothing\<close>


lemma execute_no_adds:
  "no_adds h \<Longrightarrow> execute h q =
     (if raises h then Inl (task_error (label (func h))) else Inr (), q\<lparr>executed := executed q @ [h]\<rparr>)"
  by (simp add: execute_def no_adds_def raises_def Let_def)

lemma heap_top_in: "heap_top tp \<Longrightarrow> c \<noteq> [] \<Longrightarrow> tp c \<in> set c"
  unfolding heap_top_def by (erule allE[of _ c]) simp

lemma heap_top_max: "heap_top tp \<Longrightarrow> h \<in> set c \<Longrightarrow> priority h \<le> priority (tp c)"
  unfolding heap_top_def by (erule allE[of _ c], cases c) auto

lemma drained_Nil: "drained c [] c"
  by (simp add: drained_def by_priority_def)

lemma drained_step:
  assumes tp: "heap_top tp" and ne: "c \<noteq> []" and r: "\<not> raises (tp c)"
    and d: "drained (remove1 (tp c) c) dn rest"
  shows "drained c (tp c # dn) rest"
proof -
  let ?t = "tp c"
  have tin: "?t \<in> set c" using heap_top_in[OF tp ne] .
  have ms: "mset (remove1 ?t c) = mset dn + mset rest"
    using d by (simp only: drained_def)
  have m1: "mset c = add_mset ?t (mset (remove1 ?t c))" using tin by simp
  have ms': "mset c = mset (?t # dn) + mset rest"
    unfolding m1 ms by simp
  have "set_mset (mset c) = set_mset (mset (?t # dn) + mset rest)"
    by (simp only: ms')
  then have sets: "set c = insert ?t (set dn \<union> set rest)" by simp
  have le: "\<And>x. x \<in> set dn \<union> set rest \<Longrightarrow> priority x \<le> priority ?t"
  proof -
    fix x assume "x \<in> set dn \<union> set rest"
    then have "x \<in> set c" by (simp only: sets insert_iff simp_thms)
    then show "priority x \<le> priority ?t" by (rule heap_top_max[OF tp])
  qed
  have srt: "by_priority (?t # dn)"
    using d le by (simp add: drained_def by_priority_def)
  have below: "\<forall>h \<in> set rest. \<forall>t \<in> set (?t # dn). priority h \<le> priority t"
    using d le by (simp add: drained_def)
  have nr: "\<forall>h \<in> set (?t # dn). \<not> raises h"
    using d r by (simp add: drained_def)
  show ?thesis
    unfolding drained_def using ms' srt below nr by (intro conjI)
qed


lemma execute_all_unfold:
  "handlers q \<noteq> [] \<Longrightarrow> no_adds (tp (handlers q)) \<Longrightarrow>
   execute_all tp q =
     (if raises (tp (handlers q))
      then Some (Inl (task_error (label (func (tp (handlers q))))),
                 q\<lparr>executed := executed q @ [tp (handlers q)]\<rparr>)
      else execute_all tp (q\<lparr>executed := executed q @ [tp (handlers q)],
                               handlers := remove1 (tp (handlers q)) (handlers q)\<rparr>))"
  by (subst execute_all.simps) (simp add: pq_empty_def pq_pop_def execute_no_adds)

lemma execute_all_empty: "handlers q = [] \<Longrightarrow> execute_all tp q = Some (Inr (), q)"
  by (subst execute_all.simps) (simp add: pq_empty_def)

lemma execute_all_no_adds:
  assumes tp: "heap_top tp"
  shows "\<forall>h \<in> set (handlers q). no_adds h \<Longrightarrow> length (handlers q) = n \<Longrightarrow>
    \<exists>dn rest. drained (handlers q) dn rest \<and>
      ((rest = [] \<and> execute_all tp q = Some (Inr (), q\<lparr>handlers := [], executed := executed q @ dn\<rparr>))
       \<or> (rest \<noteq> [] \<and> raises (tp rest) \<and>
           execute_all tp q = Some (Inl (task_error (label (func (tp rest)))),
                                   q\<lparr>handlers := rest, executed := executed q @ dn @ [tp rest]\<rparr>)))"
proof (induction n arbitrary: q)
  case 0
  then have e: "handlers q = []" by simp
  have "drained (handlers q) [] []" using e by (simp add: drained_Nil)
  moreover have "execute_all tp q = Some (Inr (), q\<lparr>handlers := [], executed := executed q @ []\<rparr>)"
    using e by (simp add: execute_all_empty)
  ultimately show ?case by blast
next
  case (Suc n)
  let ?c = "handlers q"
  let ?t = "tp ?c"
  have ne: "?c \<noteq> []" using Suc.prems by auto
  have tin: "?t \<in> set ?c" using heap_top_in[OF tp ne] .
  have nat: "no_adds ?t" using Suc.prems(1) tin by blast
  note unf = execute_all_unfold[of q tp, OF ne nat]
  show ?case
  proof (cases "raises ?t")
    case True
    have "drained ?c [] ?c" by (rule drained_Nil)
    moreover have "execute_all tp q = Some (Inl (task_error (label (func ?t))),
        q\<lparr>handlers := ?c, executed := executed q @ [] @ [?t]\<rparr>)"
      using unf True by simp
    ultimately show ?thesis using ne True by blast
  next
    case False
    let ?q' = "q\<lparr>executed := executed q @ [?t], handlers := remove1 ?t ?c\<rparr>"
    have step: "execute_all tp q = execute_all tp ?q'" using unf False by simp
    have len: "length (handlers ?q') = n" using Suc.prems(2) tin by (simp add: length_remove1)
    have na: "\<forall>h \<in> set (handlers ?q'). no_adds h"
      using Suc.prems(1) set_remove1_subset[of ?t ?c] by auto
    from Suc.IH[OF na len] obtain dn rest where
      d: "drained (remove1 ?t ?c) dn rest"
      and r: "(rest = [] \<and> execute_all tp ?q' = Some (Inr (), q\<lparr>handlers := [], executed := executed q @ ?t # dn\<rparr>))
       \<or> (rest \<noteq> [] \<and> raises (tp rest) \<and>
           execute_all tp ?q' = Some (Inl (task_error (label (func (tp rest)))),
                                   q\<lparr>handlers := rest, executed := executed q @ ?t # dn @ [tp rest]\<rparr>))"
      by auto
    have d': "drained ?c (?t # dn) rest" using drained_step[OF tp ne False d] .
    show ?thesis
      using d' r unfolding step
      by (intro exI[of _ "?t # dn"] exI[of _ rest]) simp
  qed
qed


lemma execute_high_empty: "handlers q = [] \<Longrightarrow> execute_high tp q = Some (Inr (), q)"
  by (subst execute_high.simps) (simp add: pq_empty_def)

lemma execute_high_below:
  "handlers q \<noteq> [] \<Longrightarrow> priority (tp (handlers q)) < priority_high \<Longrightarrow>
   execute_high tp q = Some (Inr (), q)"
  by (subst execute_high.simps) (simp add: pq_empty_def Let_def)

lemma execute_high_unfold:
  "handlers q \<noteq> [] \<Longrightarrow> no_adds (tp (handlers q)) \<Longrightarrow>
   priority_high \<le> priority (tp (handlers q)) \<Longrightarrow>
   execute_high tp q =
     (if raises (tp (handlers q))
      then Some (Inl (task_error (label (func (tp (handlers q))))),
                 q\<lparr>executed := executed q @ [tp (handlers q)]\<rparr>)
      else execute_high tp (q\<lparr>executed := executed q @ [tp (handlers q)],
                               handlers := remove1 (tp (handlers q)) (handlers q)\<rparr>))"
  by (subst execute_high.simps) (simp add: pq_empty_def pq_pop_def execute_no_adds Let_def)

lemma execute_high_no_adds:
  assumes tp: "heap_top tp"
  shows "\<forall>h \<in> set (handlers q). no_adds h \<Longrightarrow> length (handlers q) = n \<Longrightarrow>
    \<exists>dn rest. drained (handlers q) dn rest \<and> (\<forall>h \<in> set dn. priority_high \<le> priority h) \<and>
      (((rest = [] \<or> priority (tp rest) < priority_high) \<and>
        execute_high tp q = Some (Inr (), q\<lparr>handlers := rest, executed := executed q @ dn\<rparr>))
       \<or> (rest \<noteq> [] \<and> raises (tp rest) \<and> priority_high \<le> priority (tp rest) \<and>
           execute_high tp q = Some (Inl (task_error (label (func (tp rest)))),
                                   q\<lparr>handlers := rest, executed := executed q @ dn @ [tp rest]\<rparr>)))"
proof (induction n arbitrary: q)
  case 0
  then have e: "handlers q = []" by simp
  have "drained (handlers q) [] []" using e by (simp add: drained_Nil)
  moreover have "execute_high tp q = Some (Inr (), q\<lparr>handlers := [], executed := executed q @ []\<rparr>)"
    using e by (simp add: execute_high_empty)
  ultimately show ?case by fastforce
next
  case (Suc n)
  let ?c = "handlers q"
  let ?t = "tp ?c"
  have ne: "?c \<noteq> []" using Suc.prems by auto
  have tin: "?t \<in> set ?c" using heap_top_in[OF tp ne] .
  have nat: "no_adds ?t" using Suc.prems(1) tin by blast
  show ?case
  proof (cases "priority ?t < priority_high")
    case True
    have "drained ?c [] ?c" by (rule drained_Nil)
    moreover have "execute_high tp q = Some (Inr (), q\<lparr>handlers := ?c, executed := executed q @ []\<rparr>)"
      using execute_high_below[of q tp, OF ne True] by simp
    ultimately show ?thesis using True by fastforce
  next
    case hi: False
    then have hi': "priority_high \<le> priority ?t" by simp
    note unf = execute_high_unfold[of q tp, OF ne nat hi']
    show ?thesis
    proof (cases "raises ?t")
      case True
      have "drained ?c [] ?c" by (rule drained_Nil)
      moreover have "execute_high tp q = Some (Inl (task_error (label (func ?t))),
          q\<lparr>handlers := ?c, executed := executed q @ [] @ [?t]\<rparr>)"
        using unf True by simp
      ultimately show ?thesis using ne True hi' by fastforce
    next
      case False
      let ?q' = "q\<lparr>executed := executed q @ [?t], handlers := remove1 ?t ?c\<rparr>"
      have step: "execute_high tp q = execute_high tp ?q'" using unf False by simp
      have len: "length (handlers ?q') = n" using Suc.prems(2) tin by (simp add: length_remove1)
      have na: "\<forall>h \<in> set (handlers ?q'). no_adds h"
        using Suc.prems(1) set_remove1_subset[of ?t ?c] by auto
      from Suc.IH[OF na len] obtain dn rest where
        d: "drained (remove1 ?t ?c) dn rest"
        and hs: "\<forall>h \<in> set dn. priority_high \<le> priority h"
        and r: "((rest = [] \<or> priority (tp rest) < priority_high) \<and>
            execute_high tp ?q' = Some (Inr (), q\<lparr>handlers := rest, executed := executed q @ ?t # dn\<rparr>))
         \<or> (rest \<noteq> [] \<and> raises (tp rest) \<and> priority_high \<le> priority (tp rest) \<and>
             execute_high tp ?q' = Some (Inl (task_error (label (func (tp rest)))),
                                     q\<lparr>handlers := rest, executed := executed q @ ?t # dn @ [tp rest]\<rparr>))"
        by auto
      have d': "drained ?c (?t # dn) rest" using drained_step[OF tp ne False d] .
      have hs': "\<forall>h \<in> set (?t # dn). priority_high \<le> priority h" using hs hi' by simp
      show ?thesis
        using d' hs' r unfolding step
        by (intro exI[of _ "?t # dn"] exI[of _ rest]) simp
    qed
  qed
qed

lemma execute_highest_empty: "handlers q = [] \<Longrightarrow> execute_highest tp q = Some (Inr False, q)"
  by (subst execute_highest.simps) (simp add: pq_empty_def)

lemma execute_highest_unfold:
  "handlers q \<noteq> [] \<Longrightarrow> no_adds (tp (handlers q)) \<Longrightarrow>
   execute_highest tp q =
     (if raises (tp (handlers q))
      then Some (Inl (task_error (label (func (tp (handlers q))))),
                 q\<lparr>executed := executed q @ [tp (handlers q)]\<rparr>)
      else if priority (tp (handlers q)) < priority_high
      then Some (Inr (remove1 (tp (handlers q)) (handlers q) \<noteq> []),
                 q\<lparr>executed := executed q @ [tp (handlers q)],
                   handlers := remove1 (tp (handlers q)) (handlers q)\<rparr>)
      else execute_highest tp (q\<lparr>executed := executed q @ [tp (handlers q)],
                               handlers := remove1 (tp (handlers q)) (handlers q)\<rparr>))"
  by (subst execute_highest.simps) (simp add: pq_empty_def pq_pop_def execute_no_adds Let_def)

lemma execute_highest_no_adds:
  assumes tp: "heap_top tp"
  shows "\<forall>h \<in> set (handlers q). no_adds h \<Longrightarrow> length (handlers q) = n \<Longrightarrow>
    \<exists>dn rest. drained (handlers q) dn rest \<and>
      ((rest = [] \<and> (\<forall>h \<in> set dn. priority_high \<le> priority h) \<and>
        execute_highest tp q = Some (Inr False, q\<lparr>handlers := [], executed := executed q @ dn\<rparr>))
       \<or> (\<exists>hs l. dn = hs @ [l] \<and> (\<forall>h \<in> set hs. priority_high \<le> priority h) \<and>
            priority l < priority_high \<and>
            execute_highest tp q = Some (Inr (rest \<noteq> []), q\<lparr>handlers := rest, executed := executed q @ dn\<rparr>))
       \<or> (rest \<noteq> [] \<and> raises (tp rest) \<and> (\<forall>h \<in> set dn. priority_high \<le> priority h) \<and>
           execute_highest tp q = Some (Inl (task_error (label (func (tp rest)))),
                                   q\<lparr>handlers := rest, executed := executed q @ dn @ [tp rest]\<rparr>)))"
proof (induction n arbitrary: q)
  case 0
  then have e: "handlers q = []" by simp
  have "drained (handlers q) [] []" using e by (simp add: drained_Nil)
  moreover have "execute_highest tp q = Some (Inr False, q\<lparr>handlers := [], executed := executed q @ []\<rparr>)"
    using e by (simp add: execute_highest_empty)
  ultimately show ?case by fastforce
next
  case (Suc n)
  let ?c = "handlers q"
  let ?t = "tp ?c"
  have ne: "?c \<noteq> []" using Suc.prems by auto
  have tin: "?t \<in> set ?c" using heap_top_in[OF tp ne] .
  have nat: "no_adds ?t" using Suc.prems(1) tin by blast
  note unf = execute_highest_unfold[of q tp, OF ne nat]
  show ?case
  proof (cases "raises ?t")
    case True
    have "drained ?c [] ?c" by (rule drained_Nil)
    moreover have "execute_highest tp q = Some (Inl (task_error (label (func ?t))),
        q\<lparr>handlers := ?c, executed := executed q @ [] @ [?t]\<rparr>)"
      using unf True by simp
    ultimately show ?thesis using ne True by fastforce
  next
    case False
    have d0: "drained ?c [?t] (remove1 ?t ?c)"
      using drained_step[OF tp ne False drained_Nil] .
    show ?thesis
    proof (cases "priority ?t < priority_high")
      case True
      have "execute_highest tp q = Some (Inr (remove1 ?t ?c \<noteq> []),
          q\<lparr>handlers := remove1 ?t ?c, executed := executed q @ [?t]\<rparr>)"
        using unf True False by simp
      then show ?thesis using d0 True
        by (intro exI[of _ "[?t]"] exI[of _ "remove1 ?t ?c"]) simp
    next
      case hi: False
      let ?q' = "q\<lparr>executed := executed q @ [?t], handlers := remove1 ?t ?c\<rparr>"
      have step: "execute_highest tp q = execute_highest tp ?q'" using unf False hi by simp
      have len: "length (handlers ?q') = n" using Suc.prems(2) tin by (simp add: length_remove1)
      have na: "\<forall>h \<in> set (handlers ?q'). no_adds h"
        using Suc.prems(1) set_remove1_subset[of ?t ?c] by auto
      from Suc.IH[OF na len] obtain dn rest where
        d: "drained (remove1 ?t ?c) dn rest"
        and r: "(rest = [] \<and> (\<forall>h \<in> set dn. priority_high \<le> priority h) \<and>
          execute_highest tp ?q' = Some (Inr False, q\<lparr>handlers := [], executed := executed q @ ?t # dn\<rparr>))
         \<or> (\<exists>hs l. dn = hs @ [l] \<and> (\<forall>h \<in> set hs. priority_high \<le> priority h) \<and>
              priority l < priority_high \<and>
              execute_highest tp ?q' = Some (Inr (rest \<noteq> []), q\<lparr>handlers := rest, executed := executed q @ ?t # dn\<rparr>))
         \<or> (rest \<noteq> [] \<and> raises (tp rest) \<and> (\<forall>h \<in> set dn. priority_high \<le> priority h) \<and>
             execute_highest tp ?q' = Some (Inl (task_error (label (func (tp rest)))),
                                     q\<lparr>handlers := rest, executed := executed q @ ?t # dn @ [tp rest]\<rparr>))"
        by auto
      have d': "drained ?c (?t # dn) rest" using drained_step[OF tp ne False d] .
      from r consider
        (a) "rest = []" "\<forall>h \<in> set dn. priority_high \<le> priority h"
          "execute_highest tp ?q' = Some (Inr False, q\<lparr>handlers := [], executed := executed q @ ?t # dn\<rparr>)"
        | (b) hs l where "dn = hs @ [l]" "\<forall>h \<in> set hs. priority_high \<le> priority h"
              "priority l < priority_high"
              "execute_highest tp ?q' = Some (Inr (rest \<noteq> []), q\<lparr>handlers := rest, executed := executed q @ ?t # dn\<rparr>)"
        | (c) "rest \<noteq> []" "raises (tp rest)" "\<forall>h \<in> set dn. priority_high \<le> priority h"
             "execute_highest tp ?q' = Some (Inl (task_error (label (func (tp rest)))),
                                     q\<lparr>handlers := rest, executed := executed q @ ?t # dn @ [tp rest]\<rparr>)"
        by blast
      then show ?thesis
      proof cases
        case a
        then show ?thesis using d' hi unfolding step
          by (intro exI[of _ "?t # dn"] exI[of _ rest]) simp
      next
        case b
        have "?t # dn = (?t # hs) @ [l]" using b(1) by simp
        moreover have "\<forall>h \<in> set (?t # hs). priority_high \<le> priority h" using b(2) hi by simp
        ultimately have "\<exists>hs' l'. ?t # dn = hs' @ [l'] \<and> (\<forall>h \<in> set hs'. priority_high \<le> priority h) \<and>
            priority l' < priority_high" using b(3) by blast
        then show ?thesis using d' b(4) unfolding step
          by (intro exI[of _ "?t # dn"] exI[of _ rest]) simp
      next
        case c
        then show ?thesis using d' hi unfolding step
          by (intro exI[of _ "?t # dn"] exI[of _ rest]) simp
      qed
    qed
  qed
qed

section \<open>Order of execution: \<^verbatim>\<open>execute_all\<close> and \<^verbatim>\<open>execute_highest\<close>\<close>


lemma front_max_in: "c \<noteq> [] \<Longrightarrow> front_max c \<in> set c"
  by (induction c rule: front_max.induct) (auto simp: Let_def)

lemma front_max_max: "h \<in> set c \<Longrightarrow> priority h \<le> priority (front_max c)"
  by (induction c rule: front_max.induct) (auto simp: Let_def)

lemma heap_top_front_max: "heap_top front_max"
  unfolding heap_top_def using front_max_in front_max_max by blast



lemma fold_add_eq:
  "fold (\<lambda>(p, f). add p f) calls q = q\<lparr>handlers := handlers q @ map (\<lambda>(p, f). Queued_handler p f) calls\<rparr>"
  by (induction calls arbitrary: q) (auto simp: add_def pq_push_def)

lemma drained_raises_free:
  assumes tp: "heap_top tp" and d: "drained c dn rest" and nr: "\<forall>h \<in> set c. \<not> raises h"
  shows "rest = [] \<or> \<not> raises (tp rest)"
proof (cases "rest = []")
  case False
  then have "tp rest \<in> set rest" using heap_top_in[OF tp] by blast
  then have "tp rest \<in># mset dn + mset rest" by simp
  then have "tp rest \<in># mset c" using d by (simp only: drained_def)
  then show ?thesis using nr by simp
qed simp

lemma execute_all_plain:
  assumes tp: "heap_top tp" and pl: "\<forall>h \<in> set (handlers q). no_adds h \<and> \<not> raises h"
  shows "\<exists>tr. execute_all tp q = Some (Inr (), q\<lparr>handlers := [], executed := executed q @ tr\<rparr>)
      \<and> by_priority tr \<and> mset tr = mset (handlers q)"
proof -
  have na: "\<forall>h \<in> set (handlers q). no_adds h" using pl by blast
  have nr: "\<forall>h \<in> set (handlers q). \<not> raises h" using pl by blast
  from execute_all_no_adds[OF tp na refl] obtain dn rest where
    d: "drained (handlers q) dn rest"
    and r: "(rest = [] \<and> execute_all tp q = Some (Inr (), q\<lparr>handlers := [], executed := executed q @ dn\<rparr>))
       \<or> (rest \<noteq> [] \<and> raises (tp rest) \<and>
           execute_all tp q = Some (Inl (task_error (label (func (tp rest)))),
                                   q\<lparr>handlers := rest, executed := executed q @ dn @ [tp rest]\<rparr>))"
    by blast
  from drained_raises_free[OF tp d nr] r have e: "rest = []"
    and run: "execute_all tp q = Some (Inr (), q\<lparr>handlers := [], executed := executed q @ dn\<rparr>)"
    by blast+
  have "by_priority dn" "mset dn = mset (handlers q)" using d e by (simp_all add: drained_def)
  then show ?thesis using run by blast
qed



lemma drained_by_priority_snoc:
  assumes "drained c dn rest" and "t \<in> set rest"
  shows "by_priority (dn @ [t])"
  using assms by (simp add: drained_def by_priority_def sorted_wrt_append)




lemma drained_split_high:
  assumes d: "drained c dn rest" and hi: "\<forall>h \<in> set dn. is_high h" and lo: "\<forall>h \<in> set rest. \<not> is_high h"
  shows "mset dn = mset (filter is_high c)" and "mset rest = mset (filter (\<lambda>h. \<not> is_high h) c)"
proof -
  have ms: "mset c = mset dn + mset rest" using d by (simp only: drained_def)
  have f1: "filter is_high dn = dn" using hi by simp
  have f2: "filter is_high rest = []" using lo by simp
  have f3: "filter (\<lambda>h. \<not> is_high h) dn = []" using hi by simp
  have f4: "filter (\<lambda>h. \<not> is_high h) rest = rest" using lo by simp
  have "mset (filter is_high c) = mset (filter is_high dn) + mset (filter is_high rest)"
    by (simp only: mset_filter ms filter_union_mset)
  then show "mset dn = mset (filter is_high c)" by (simp only: f1 f2) simp
  have "mset (filter (\<lambda>h. \<not> is_high h) c)
      = mset (filter (\<lambda>h. \<not> is_high h) dn) + mset (filter (\<lambda>h. \<not> is_high h) rest)"
    by (simp only: mset_filter ms filter_union_mset)
  then show "mset rest = mset (filter (\<lambda>h. \<not> is_high h) c)" by (simp only: f3 f4) simp
qed

lemma execute_highest_no_adds_cases:
  assumes tp: "heap_top tp" and na: "\<forall>h \<in> set (handlers q). no_adds h"
  shows "(\<exists>hs ls rest.
           execute_highest tp q
             = Some (Inr (rest \<noteq> []), q\<lparr>handlers := rest, executed := executed q @ hs @ ls\<rparr>)
           \<and> mset hs = mset (filter is_high (handlers q))
           \<and> by_priority (hs @ ls)
           \<and> mset ls + mset rest = mset (filter (\<lambda>h. \<not> is_high h) (handlers q))
           \<and> length ls = min 1 (length (filter (\<lambda>h. \<not> is_high h) (handlers q)))
           \<and> (\<forall>l \<in> set ls. \<forall>r \<in> set rest. priority r \<le> priority l)
           \<and> list_all (\<lambda>h. \<not> raises h) (hs @ ls))
       \<or> (\<exists>hs t rest.
           execute_highest tp q
             = Some (Inl (task_error (label (func t))),
                     q\<lparr>handlers := rest, executed := executed q @ hs @ [t]\<rparr>)
           \<and> raises t \<and> t \<in> set rest
           \<and> mset hs + mset rest = mset (handlers q)
           \<and> list_all is_high hs
           \<and> by_priority (hs @ [t])
           \<and> list_all (\<lambda>h. \<not> raises h) hs
           \<and> (\<forall>r \<in> set rest. priority r \<le> priority t))"
    (is "?N \<or> ?E")
proof -
  let ?c = "handlers q"
  from execute_highest_no_adds[OF tp na refl] obtain dn rest where
    d: "drained ?c dn rest"
    and r: "(rest = [] \<and> (\<forall>h \<in> set dn. priority_high \<le> priority h) \<and>
        execute_highest tp q = Some (Inr False, q\<lparr>handlers := [], executed := executed q @ dn\<rparr>))
       \<or> (\<exists>hs l. dn = hs @ [l] \<and> (\<forall>h \<in> set hs. priority_high \<le> priority h) \<and>
            priority l < priority_high \<and>
            execute_highest tp q = Some (Inr (rest \<noteq> []), q\<lparr>handlers := rest, executed := executed q @ dn\<rparr>))
       \<or> (rest \<noteq> [] \<and> raises (tp rest) \<and> (\<forall>h \<in> set dn. priority_high \<le> priority h) \<and>
           execute_highest tp q = Some (Inl (task_error (label (func (tp rest)))),
                                   q\<lparr>handlers := rest, executed := executed q @ dn @ [tp rest]\<rparr>))"
    by blast
  have nrd: "list_all (\<lambda>h. \<not> raises h) dn" using d by (simp add: drained_def list_all_iff)
  from r consider
    (a) "rest = []" "\<forall>h \<in> set dn. priority_high \<le> priority h"
        "execute_highest tp q = Some (Inr False, q\<lparr>handlers := [], executed := executed q @ dn\<rparr>)"
    | (b) hs l where "dn = hs @ [l]" "\<forall>h \<in> set hs. priority_high \<le> priority h"
        "priority l < priority_high"
        "execute_highest tp q = Some (Inr (rest \<noteq> []), q\<lparr>handlers := rest, executed := executed q @ dn\<rparr>)"
    | (c) "rest \<noteq> []" "raises (tp rest)" "\<forall>h \<in> set dn. priority_high \<le> priority h"
        "execute_highest tp q = Some (Inl (task_error (label (func (tp rest)))),
                                   q\<lparr>handlers := rest, executed := executed q @ dn @ [tp rest]\<rparr>)"
    by blast
  then show ?thesis
  proof cases
    case a
    have hi: "\<forall>h \<in> set dn. is_high h" using a(2) by (simp add: is_high_def)
    have lo: "\<forall>h \<in> set rest. \<not> is_high h" using a(1) by simp
    note sp = drained_split_high[OF d hi lo]
    have nil: "filter (\<lambda>h. \<not> is_high h) ?c = []"
      using sp(2) a(1) by simp
    have "execute_highest tp q
             = Some (Inr ([] \<noteq> ([]::queued_handler list)), q\<lparr>handlers := [], executed := executed q @ dn @ []\<rparr>)"
      using a(3) by simp
    moreover have "by_priority (dn @ [])" using d by (simp add: drained_def)
    moreover have "list_all (\<lambda>h. \<not> raises h) (dn @ [])" using nrd by simp
    ultimately have ?N using sp(1) nil
      by (intro exI[of _ dn] exI[of _ "[]"]) simp
    then show ?thesis by (rule disjI1)
  next
    case b
    have dd: "drained ?c (hs @ [l]) rest" using d b(1) by simp
    have below: "\<forall>h \<in> set rest. priority h \<le> priority l"
      using dd by (simp add: drained_def)
    have hi: "\<forall>h \<in> set hs. is_high h" using b(2) by (simp add: is_high_def)
    have llo: "\<not> is_high l" using b(3) by (simp add: is_high_def)
    have lo: "\<forall>h \<in> set rest. \<not> is_high h"
      using below b(3) by (fastforce simp: is_high_def)
    have ms: "mset ?c = mset hs + mset (l # rest)"
      using dd by (simp add: drained_def)
    have f1: "filter is_high hs = hs" using hi by simp
    have f2: "filter is_high (l # rest) = []" using lo llo by simp
    have f3: "filter (\<lambda>h. \<not> is_high h) hs = []" using hi by simp
    have f4: "filter (\<lambda>h. \<not> is_high h) (l # rest) = l # rest" using lo llo by simp
    have "mset (filter is_high ?c) = mset (filter is_high hs) + mset (filter is_high (l # rest))"
      by (simp only: mset_filter ms filter_union_mset)
    then have m1: "mset hs = mset (filter is_high ?c)" by (simp only: f1 f2) simp
    have "mset (filter (\<lambda>h. \<not> is_high h) ?c)
      = mset (filter (\<lambda>h. \<not> is_high h) hs) + mset (filter (\<lambda>h. \<not> is_high h) (l # rest))"
      by (simp only: mset_filter ms filter_union_mset)
    then have m2: "mset [l] + mset rest = mset (filter (\<lambda>h. \<not> is_high h) ?c)"
      by (simp only: f3 f4) simp
    have "mset (l # rest) = mset (filter (\<lambda>h. \<not> is_high h) ?c)"
      using m2 by simp
    then have "length (l # rest) = length (filter (\<lambda>h. \<not> is_high h) ?c)"
      by (rule mset_eq_length)
    then have len: "length [l] = min 1 (length (filter (\<lambda>h. \<not> is_high h) ?c))"
      by simp
    have srt: "by_priority (hs @ [l])" using dd by (simp only: drained_def)
    have nr: "list_all (\<lambda>h. \<not> raises h) (hs @ [l])" using nrd b(1) by simp
    have run: "execute_highest tp q
             = Some (Inr (rest \<noteq> []), q\<lparr>handlers := rest, executed := executed q @ hs @ [l]\<rparr>)"
      using b(4) b(1) by simp
    have ?N
      using run m1 srt m2 len below nr
      by (intro exI[of _ hs] exI[of _ "[l]"] exI[of _ rest]) simp
    then show ?thesis by (rule disjI1)
  next
    case c
    have tin: "tp rest \<in> set rest" using heap_top_in[OF tp c(1)] .
    have ms: "mset dn + mset rest = mset ?c" using d by (simp only: drained_def)
    have hi: "list_all is_high dn" using c(3) by (simp add: is_high_def list_all_iff)
    have srt: "by_priority (dn @ [tp rest])" using drained_by_priority_snoc[OF d tin] .
    have mx: "\<forall>r \<in> set rest. priority r \<le> priority (tp rest)"
      using heap_top_max[OF tp] by blast
    have ?E
      using c(4) c(2) tin ms hi srt nrd mx
      by (intro exI[of _ dn] exI[of _ "tp rest"] exI[of _ rest]) simp
    then show ?thesis by (rule disjI2)
  qed
qed

lemma execute_highest_plain:
  assumes tp: "heap_top tp" and pl: "\<forall>h \<in> set (handlers q). no_adds h \<and> \<not> raises h"
  shows "\<exists>hs ls rest.
           execute_highest tp q
             = Some (Inr (rest \<noteq> []), q\<lparr>handlers := rest, executed := executed q @ hs @ ls\<rparr>)
           \<and> mset hs = mset (filter is_high (handlers q))
           \<and> by_priority (hs @ ls)
           \<and> mset ls + mset rest = mset (filter (\<lambda>h. \<not> is_high h) (handlers q))
           \<and> length ls = min 1 (length (filter (\<lambda>h. \<not> is_high h) (handlers q)))
           \<and> (\<forall>l \<in> set ls. \<forall>r \<in> set rest. priority r \<le> priority l)"
proof -
  have na: "\<forall>h \<in> set (handlers q). no_adds h" using pl by blast
  have nr: "\<forall>h \<in> set (handlers q). \<not> raises h" using pl by blast
  from execute_highest_no_adds_cases[OF tp na] show ?thesis
  proof
    assume "\<exists>hs ls rest.
           execute_highest tp q
             = Some (Inr (rest \<noteq> []), q\<lparr>handlers := rest, executed := executed q @ hs @ ls\<rparr>)
           \<and> mset hs = mset (filter is_high (handlers q))
           \<and> by_priority (hs @ ls)
           \<and> mset ls + mset rest = mset (filter (\<lambda>h. \<not> is_high h) (handlers q))
           \<and> length ls = min 1 (length (filter (\<lambda>h. \<not> is_high h) (handlers q)))
           \<and> (\<forall>l \<in> set ls. \<forall>r \<in> set rest. priority r \<le> priority l)
           \<and> list_all (\<lambda>h. \<not> raises h) (hs @ ls)"
    then obtain hs ls rest where
      "execute_highest tp q
             = Some (Inr (rest \<noteq> []), q\<lparr>handlers := rest, executed := executed q @ hs @ ls\<rparr>)"
      "mset hs = mset (filter is_high (handlers q))"
      "by_priority (hs @ ls)"
      "mset ls + mset rest = mset (filter (\<lambda>h. \<not> is_high h) (handlers q))"
      "length ls = min 1 (length (filter (\<lambda>h. \<not> is_high h) (handlers q)))"
      "\<forall>l \<in> set ls. \<forall>r \<in> set rest. priority r \<le> priority l"
      by blast
    then show ?thesis by (intro exI[of _ hs] exI[of _ ls] exI[of _ rest] conjI)
  next
    assume "\<exists>hs t rest.
           execute_highest tp q
             = Some (Inl (task_error (label (func t))),
                     q\<lparr>handlers := rest, executed := executed q @ hs @ [t]\<rparr>)
           \<and> raises t \<and> t \<in> set rest
           \<and> mset hs + mset rest = mset (handlers q)
           \<and> list_all is_high hs
           \<and> by_priority (hs @ [t])
           \<and> list_all (\<lambda>h. \<not> raises h) hs
           \<and> (\<forall>r \<in> set rest. priority r \<le> priority t)"
    then obtain hs t rest where t: "raises t" "t \<in> set rest"
      and m: "mset hs + mset rest = mset (handlers q)"
      by blast
    have "t \<in># mset hs + mset rest" using t(2) by simp
    then have "t \<in># mset (handlers q)" by (simp only: m)
    then have "t \<in> set (handlers q)" by simp
    then show ?thesis using nr t(1) by blast
  qed
qed


lemma execute_highest_only_high:
  assumes tp: "heap_top tp" and pl: "\<forall>h \<in> set (handlers q). no_adds h \<and> \<not> raises h"
    and hi: "\<forall>h \<in> set (handlers q). is_high h"
  shows "\<exists>hs. execute_highest tp q = Some (Inr False, q\<lparr>handlers := [], executed := executed q @ hs\<rparr>)
           \<and> mset hs = mset (handlers q)"
proof -
  have nil: "filter (\<lambda>h. \<not> is_high h) (handlers q) = []" using hi by simp
  have all: "filter is_high (handlers q) = handlers q" using hi by simp
  from execute_highest_plain[OF tp pl] obtain hs ls rest where
    "execute_highest tp q
             = Some (Inr (rest \<noteq> []), q\<lparr>handlers := rest, executed := executed q @ hs @ ls\<rparr>)"
    "mset hs = mset (filter is_high (handlers q))"
    "mset ls + mset rest = mset (filter (\<lambda>h. \<not> is_high h) (handlers q))"
    by blast
  then show ?thesis unfolding nil all by (intro exI[of _ hs]) simp
qed

lemma execute_highest_one_high_one_low:
  assumes tp: "heap_top tp"
    and h: "is_high h" "no_adds h" "\<not> raises h"
    and l: "\<not> is_high l" "no_adds l" "\<not> raises l"
    and c: "mset (handlers q) = {#h, l#}"
  shows "execute_highest tp q = Some (Inr False, q\<lparr>handlers := [], executed := executed q @ [h, l]\<rparr>)"
proof -
  have st: "set (handlers q) = {h, l}" using arg_cong[OF c, of set_mset] by simp
  have pl: "\<forall>x \<in> set (handlers q). no_adds x \<and> \<not> raises x" using h l unfolding st by simp
  have fh: "mset (filter is_high (handlers q)) = {#h#}"
    using h(1) l(1) by (simp only: mset_filter c) simp
  have fl: "mset (filter (\<lambda>h. \<not> is_high h) (handlers q)) = {#l#}"
    using h(1) l(1) by (simp only: mset_filter c) simp
  have ll: "length (filter (\<lambda>h. \<not> is_high h) (handlers q)) = 1"
    using arg_cong[OF fl, of size] unfolding size_mset by simp
  from execute_highest_plain[OF tp pl] obtain hs ls rest where
    run: "execute_highest tp q
             = Some (Inr (rest \<noteq> []), q\<lparr>handlers := rest, executed := executed q @ hs @ ls\<rparr>)"
    and m1: "mset hs = {#h#}"
    and m2: "mset ls + mset rest = {#l#}"
    and len: "length ls = 1"
    unfolding fh fl ll by auto
  have hs: "hs = [h]" using m1 by simp
  obtain x where ls: "ls = [x]" using len by (cases ls) auto
  have "ls = [l] \<and> rest = []" using m2 unfolding ls by (cases rest) (auto simp: add_mset_eq_single)
  then show ?thesis using run hs by simp
qed

lemma execute_highest_one_high_two_low:
  assumes tp: "heap_top tp"
    and h: "is_high h" "no_adds h" "\<not> raises h"
    and l: "\<not> is_high l1" "no_adds l1" "\<not> raises l1" "\<not> is_high l2" "no_adds l2" "\<not> raises l2"
    and c: "mset (handlers q) = {#h, l1, l2#}"
  shows "\<exists>l r. execute_highest tp q = Some (Inr True, q\<lparr>handlers := [r], executed := executed q @ [h, l]\<rparr>)
           \<and> {#l, r#} = {#l1, l2#} \<and> priority r \<le> priority l"
proof -
  have st: "set (handlers q) = {h, l1, l2}" using arg_cong[OF c, of set_mset] by simp
  have pl: "\<forall>x \<in> set (handlers q). no_adds x \<and> \<not> raises x" using h l unfolding st by simp
  have fh: "mset (filter is_high (handlers q)) = {#h#}"
    using h(1) l(1,4) by (simp only: mset_filter c) simp
  have fl: "mset (filter (\<lambda>h. \<not> is_high h) (handlers q)) = {#l1, l2#}"
    using h(1) l(1,4) by (simp only: mset_filter c) simp
  have ll: "length (filter (\<lambda>h. \<not> is_high h) (handlers q)) = 2"
    using arg_cong[OF fl, of size] unfolding size_mset by simp
  from execute_highest_plain[OF tp pl] obtain hs ls rest where
    run: "execute_highest tp q
             = Some (Inr (rest \<noteq> []), q\<lparr>handlers := rest, executed := executed q @ hs @ ls\<rparr>)"
    and m1: "mset hs = {#h#}"
    and m2: "mset ls + mset rest = {#l1, l2#}"
    and len: "length ls = 1"
    and ord: "\<forall>l \<in> set ls. \<forall>r \<in> set rest. priority r \<le> priority l"
    unfolding fh fl ll by auto
  have hs: "hs = [h]" using m1 by simp
  obtain x where ls: "ls = [x]" using len by (cases ls) auto
  have "size (mset ls + mset rest) = 2" unfolding m2 by simp
  then have "length rest = 1" unfolding ls by simp
  then obtain r where rest: "rest = [r]" by (cases rest) auto
  have "{#x, r#} = {#l1, l2#}" using m2 unfolding ls rest by (simp add: add_mset_commute)
  moreover have "priority r \<le> priority x" using ord unfolding ls rest by simp
  ultimately show ?thesis using run unfolding hs ls rest by (intro exI[of _ x] exI[of _ r]) simp
qed


section \<open>\<^verbatim>\<open>execute_high\<close>\<close>






lemma execute_high_bounded_returns:
  "execute_high_bounded n tp q = (Some r, q') \<Longrightarrow> execute_high tp q = Some (r, q')"
proof (induction n arbitrary: q)
  case 0
  then show ?case by simp
next
  case (Suc n)
  let ?t = "tp (handlers q)"
  show ?case
  proof (cases "pq_empty (handlers q) \<or> priority ?t < priority_high")
    case True
    then have "execute_high_bounded (Suc n) tp q = (Some (Inr ()), q)" by (auto simp: Let_def)
    then have "r = Inr ()" "q' = q" using Suc.prems by simp_all
    moreover have "execute_high tp q = Some (Inr (), q)"
      using True by (subst execute_high.simps) (auto simp: Let_def)
    ultimately show ?thesis by simp
  next
    case False
    obtain x q1 where ex: "execute ?t q = (x, q1)" by (cases "execute ?t q")
    show ?thesis
    proof (cases x)
      case (Inl e)
      then have "execute_high_bounded (Suc n) tp q = (Some (Inl e), q1)"
        using False ex by (simp add: Let_def)
      then have "r = Inl e" "q' = q1" using Suc.prems by simp_all
      moreover have "execute_high tp q = Some (Inl e, q1)"
        using False ex Inl by (subst execute_high.simps) (simp add: Let_def)
      ultimately show ?thesis by simp
    next
      case (Inr u)
      let ?q2 = "q1\<lparr>handlers := pq_pop tp (handlers q1)\<rparr>"
      have "execute_high_bounded (Suc n) tp q = execute_high_bounded n tp ?q2"
        using False ex Inr by (simp add: Let_def)
      then have "execute_high_bounded n tp ?q2 = (Some r, q')" using Suc.prems by simp
      from Suc.IH[OF this] have "execute_high tp ?q2 = Some (r, q')" .
      moreover have "execute_high tp q = execute_high tp ?q2"
        using False ex Inr by (subst execute_high.simps) (simp add: Let_def)
      ultimately show ?thesis by simp
    qed
  qed
qed

lemma execute_high_returns_bounded:
  assumes run: "execute_high tp q = Some y"
  shows "\<exists>n. execute_high_bounded n tp q = (Some (fst y), snd y)"
proof (rule execute_high.raw_induct[where P = "\<lambda>tp q y. \<exists>n. execute_high_bounded n tp q = (Some (fst y), snd y)", OF _ run])
  fix f :: "top_fn \<Rightarrow> execution_priority_queue \<Rightarrow> ((error + unit) \<times> execution_priority_queue) option"
  fix tp q y
  assume IH: "\<And>tp q y. f tp q = Some y \<Longrightarrow> \<exists>n. execute_high_bounded n tp q = (Some (fst y), snd y)"
  assume body: "(if pq_empty (handlers q) then Some (Inr (), q)
      else let t = tp (handlers q); p = priority t in
           if p < priority_high then Some (Inr (), q)
           else case execute t q of
                  (Inl e, q') \<Rightarrow> Some (Inl e, q')
                | (Inr u, q') \<Rightarrow> f tp (q'\<lparr>handlers := pq_pop tp (handlers q')\<rparr>)) = Some y"
  let ?t = "tp (handlers q)"
  show "\<exists>n. execute_high_bounded n tp q = (Some (fst y), snd y)"
  proof (cases "pq_empty (handlers q) \<or> priority ?t < priority_high")
    case True
    then have "y = (Inr (), q)" using body by (auto simp: Let_def split: if_splits)
    moreover have "execute_high_bounded (Suc 0) tp q = (Some (Inr ()), q)"
      using True by (auto simp: Let_def)
    ultimately show ?thesis by (intro exI[of _ "Suc 0"]) simp
  next
    case False
    obtain x q1 where ex: "execute ?t q = (x, q1)" by (cases "execute ?t q")
    show ?thesis
    proof (cases x)
      case (Inl e)
      then have "y = (Inl e, q1)" using body False ex by (auto simp: Let_def)
      moreover have "execute_high_bounded (Suc 0) tp q = (Some (Inl e), q1)"
        using False ex Inl by (simp add: Let_def)
      ultimately show ?thesis by (intro exI[of _ "Suc 0"]) simp
    next
      case (Inr u)
      let ?q2 = "q1\<lparr>handlers := pq_pop tp (handlers q1)\<rparr>"
      have "f tp ?q2 = Some y" using body False ex Inr by (simp add: Let_def)
      from IH[OF this] obtain n where "execute_high_bounded n tp ?q2 = (Some (fst y), snd y)"
        by blast
      moreover have "execute_high_bounded (Suc n) tp q = execute_high_bounded n tp ?q2"
        using False ex Inr by (simp add: Let_def)
      ultimately show ?thesis by (intro exI[of _ "Suc n"]) simp
    qed
  qed
qed









section \<open>A task that raises\<close>


lemma drained_outcome_Inr:
  assumes "drained (handlers q) dn rest"
  shows "drain_outcome tp q (Inr v) (q\<lparr>handlers := rest, executed := executed q @ dn\<rparr>)"
  using assms unfolding drain_outcome_def drained_def
  by (intro exI[of _ dn]) (simp add: list_all_iff)

lemma drained_outcome_Inl:
  assumes "drained (handlers q) dn rest" "rest \<noteq> []" "raises (tp rest)"
  shows "drain_outcome tp q (Inl (task_error (label (func (tp rest)))))
           (q\<lparr>handlers := rest, executed := executed q @ dn @ [tp rest]\<rparr>)"
  using assms unfolding drain_outcome_def drained_def
  by (intro exI[of _ dn]) (simp add: list_all_iff)

lemma drained_rest_subset:
  assumes "drained c dn rest" shows "set rest \<subseteq> set c"
proof
  fix x assume "x \<in> set rest"
  then have "x \<in># mset dn + mset rest" by simp
  then have "x \<in># mset c" using assms by (simp only: drained_def)
  then show "x \<in> set c" by simp
qed

lemma execute_all_outcome:
  assumes tp: "heap_top tp" and na: "\<forall>h \<in> set (handlers q). no_adds h"
  shows "\<exists>r q'. execute_all tp q = Some (r, q') \<and> drain_outcome tp q r q'
           \<and> (isl r \<longrightarrow> execute_all tp q' = Some (r, q'\<lparr>executed := executed q' @ [tp (handlers q')]\<rparr>))"
proof -
  from execute_all_no_adds[OF tp na refl] obtain dn rest where
    d: "drained (handlers q) dn rest"
    and r: "(rest = [] \<and> execute_all tp q = Some (Inr (), q\<lparr>handlers := [], executed := executed q @ dn\<rparr>))
       \<or> (rest \<noteq> [] \<and> raises (tp rest) \<and>
           execute_all tp q = Some (Inl (task_error (label (func (tp rest)))),
                                   q\<lparr>handlers := rest, executed := executed q @ dn @ [tp rest]\<rparr>))"
    by blast
  from r show ?thesis
  proof
    assume a: "rest = [] \<and> execute_all tp q = Some (Inr (), q\<lparr>handlers := [], executed := executed q @ dn\<rparr>)"
    have "drain_outcome tp q (Inr ()) (q\<lparr>handlers := [], executed := executed q @ dn\<rparr>)"
      using drained_outcome_Inr[OF d, of tp "()"] a by simp
    then show ?thesis using a by simp
  next
    assume b: "rest \<noteq> [] \<and> raises (tp rest) \<and>
           execute_all tp q = Some (Inl (task_error (label (func (tp rest)))),
                                   q\<lparr>handlers := rest, executed := executed q @ dn @ [tp rest]\<rparr>)"
    then have b1: "rest \<noteq> []" and b2: "raises (tp rest)"
      and b3: "execute_all tp q = Some (Inl (task_error (label (func (tp rest)))),
                                   q\<lparr>handlers := rest, executed := executed q @ dn @ [tp rest]\<rparr>)"
      by blast+
    let ?q' = "q\<lparr>handlers := rest, executed := executed q @ dn @ [tp rest]\<rparr>"
    have o: "drain_outcome tp q (Inl (task_error (label (func (tp rest))))) ?q'"
      using drained_outcome_Inl[where tp = tp, OF d b1 b2] .
    have "tp rest \<in> set rest" using heap_top_in[OF tp b1] .
    then have nat: "no_adds (tp (handlers ?q'))" using na drained_rest_subset[OF d] by auto
    have ne: "handlers ?q' \<noteq> []" using b1 by simp
    have again: "execute_all tp ?q' = Some (Inl (task_error (label (func (tp rest)))),
        ?q'\<lparr>executed := executed ?q' @ [tp (handlers ?q')]\<rparr>)"
      using execute_all_unfold[of ?q' tp, OF ne nat] b2 by simp
    show ?thesis using b3 o again by simp
  qed
qed

lemma execute_high_outcome:
  assumes tp: "heap_top tp" and na: "\<forall>h \<in> set (handlers q). no_adds h"
  shows "\<exists>r q'. execute_high tp q = Some (r, q') \<and> drain_outcome tp q r q'
           \<and> (isl r \<longrightarrow> execute_high tp q' = Some (r, q'\<lparr>executed := executed q' @ [tp (handlers q')]\<rparr>))"
proof -
  from execute_high_no_adds[OF tp na refl] obtain dn rest where
    d: "drained (handlers q) dn rest"
    and r: "((rest = [] \<or> priority (tp rest) < priority_high) \<and>
        execute_high tp q = Some (Inr (), q\<lparr>handlers := rest, executed := executed q @ dn\<rparr>))
       \<or> (rest \<noteq> [] \<and> raises (tp rest) \<and> priority_high \<le> priority (tp rest) \<and>
           execute_high tp q = Some (Inl (task_error (label (func (tp rest)))),
                                   q\<lparr>handlers := rest, executed := executed q @ dn @ [tp rest]\<rparr>))"
    by blast
  from r show ?thesis
  proof
    assume a: "(rest = [] \<or> priority (tp rest) < priority_high) \<and>
        execute_high tp q = Some (Inr (), q\<lparr>handlers := rest, executed := executed q @ dn\<rparr>)"
    have "drain_outcome tp q (Inr ()) (q\<lparr>handlers := rest, executed := executed q @ dn\<rparr>)"
      using drained_outcome_Inr[OF d, of tp "()"] .
    then show ?thesis using a by simp
  next
    assume b: "rest \<noteq> [] \<and> raises (tp rest) \<and> priority_high \<le> priority (tp rest) \<and>
           execute_high tp q = Some (Inl (task_error (label (func (tp rest)))),
                                   q\<lparr>handlers := rest, executed := executed q @ dn @ [tp rest]\<rparr>)"
    then have b1: "rest \<noteq> []" and b2: "raises (tp rest)" and b4: "priority_high \<le> priority (tp rest)"
      and b3: "execute_high tp q = Some (Inl (task_error (label (func (tp rest)))),
                                   q\<lparr>handlers := rest, executed := executed q @ dn @ [tp rest]\<rparr>)"
      by blast+
    let ?q' = "q\<lparr>handlers := rest, executed := executed q @ dn @ [tp rest]\<rparr>"
    have o: "drain_outcome tp q (Inl (task_error (label (func (tp rest))))) ?q'"
      using drained_outcome_Inl[where tp = tp, OF d b1 b2] .
    have "tp rest \<in> set rest" using heap_top_in[OF tp b1] .
    then have nat: "no_adds (tp (handlers ?q'))" using na drained_rest_subset[OF d] by auto
    have ne: "handlers ?q' \<noteq> []" using b1 by simp
    have hi: "priority_high \<le> priority (tp (handlers ?q'))" using b4 by simp
    have again: "execute_high tp ?q' = Some (Inl (task_error (label (func (tp rest)))),
        ?q'\<lparr>executed := executed ?q' @ [tp (handlers ?q')]\<rparr>)"
      using execute_high_unfold[of ?q' tp, OF ne nat hi] b2 by simp
    show ?thesis using b3 o again by simp
  qed
qed

lemma execute_highest_outcome:
  assumes tp: "heap_top tp" and na: "\<forall>h \<in> set (handlers q). no_adds h"
  shows "\<exists>r q'. execute_highest tp q = Some (r, q') \<and> drain_outcome tp q r q'
           \<and> (isl r \<longrightarrow> execute_highest tp q' = Some (r, q'\<lparr>executed := executed q' @ [tp (handlers q')]\<rparr>))"
proof -
  from execute_highest_no_adds[OF tp na refl] obtain dn rest where
    d: "drained (handlers q) dn rest"
    and r: "(rest = [] \<and> (\<forall>h \<in> set dn. priority_high \<le> priority h) \<and>
        execute_highest tp q = Some (Inr False, q\<lparr>handlers := [], executed := executed q @ dn\<rparr>))
       \<or> (\<exists>hs l. dn = hs @ [l] \<and> (\<forall>h \<in> set hs. priority_high \<le> priority h) \<and>
            priority l < priority_high \<and>
            execute_highest tp q = Some (Inr (rest \<noteq> []), q\<lparr>handlers := rest, executed := executed q @ dn\<rparr>))
       \<or> (rest \<noteq> [] \<and> raises (tp rest) \<and> (\<forall>h \<in> set dn. priority_high \<le> priority h) \<and>
           execute_highest tp q = Some (Inl (task_error (label (func (tp rest)))),
                                   q\<lparr>handlers := rest, executed := executed q @ dn @ [tp rest]\<rparr>))"
    by blast
  from r consider
    (a) "execute_highest tp q = Some (Inr False, q\<lparr>handlers := rest, executed := executed q @ dn\<rparr>)"
    | (b) "execute_highest tp q = Some (Inr (rest \<noteq> []), q\<lparr>handlers := rest, executed := executed q @ dn\<rparr>)"
    | (c) "rest \<noteq> []" "raises (tp rest)"
          "execute_highest tp q = Some (Inl (task_error (label (func (tp rest)))),
                                   q\<lparr>handlers := rest, executed := executed q @ dn @ [tp rest]\<rparr>)"
    by blast
  then show ?thesis
  proof cases
    case a
    have "drain_outcome tp q (Inr False) (q\<lparr>handlers := rest, executed := executed q @ dn\<rparr>)"
      using drained_outcome_Inr[OF d, of tp False] .
    then show ?thesis using a by simp
  next
    case b
    have "drain_outcome tp q (Inr (rest \<noteq> [])) (q\<lparr>handlers := rest, executed := executed q @ dn\<rparr>)"
      using drained_outcome_Inr[OF d, of tp "rest \<noteq> []"] .
    then show ?thesis using b by simp
  next
    case c
    let ?q' = "q\<lparr>handlers := rest, executed := executed q @ dn @ [tp rest]\<rparr>"
    have o: "drain_outcome tp q (Inl (task_error (label (func (tp rest))))) ?q'"
      using drained_outcome_Inl[where tp = tp, OF d c(1) c(2)] .
    have "tp rest \<in> set rest" using heap_top_in[OF tp c(1)] .
    then have nat: "no_adds (tp (handlers ?q'))" using na drained_rest_subset[OF d] by auto
    have ne: "handlers ?q' \<noteq> []" using c(1) by simp
    have again: "execute_highest tp ?q' = Some (Inl (task_error (label (func (tp rest)))),
        ?q'\<lparr>executed := executed ?q' @ [tp (handlers ?q')]\<rparr>)"
      using execute_highest_unfold[of ?q' tp, OF ne nat] c(2) by simp
    show ?thesis using c(3) o again by simp
  qed
qed

text \<open>
  Claim C2, as the code has it. Every drain loop executes the top handler and pops
  afterwards. On a queue of tasks that add nothing, each of the three drain calls ends;
  the handlers that ran to completion are exactly what is gone from the queue; if a task
  raises, the call is left by that exception, the task that raised is still queued, on
  top, with everything that had not run, and the next call of the same drain executes it
  again and is left by the same exception.
\<close>

theorem drain_executes_then_pops:
  assumes "heap_top tp" and "\<forall>h \<in> set (handlers q). no_adds h"
  shows "(\<exists>r q'. execute_all tp q = Some (r, q') \<and> drain_outcome tp q r q'
           \<and> (isl r \<longrightarrow> execute_all tp q' = Some (r, q'\<lparr>executed := executed q' @ [tp (handlers q')]\<rparr>)))
       \<and> (\<exists>r q'. execute_highest tp q = Some (r, q') \<and> drain_outcome tp q r q'
           \<and> (isl r \<longrightarrow> execute_highest tp q' = Some (r, q'\<lparr>executed := executed q' @ [tp (handlers q')]\<rparr>)))
       \<and> (\<exists>r q'. execute_high tp q = Some (r, q') \<and> drain_outcome tp q r q'
           \<and> (isl r \<longrightarrow> execute_high tp q' = Some (r, q'\<lparr>executed := executed q' @ [tp (handlers q')]\<rparr>)))"
  using execute_all_outcome[OF assms] execute_highest_outcome[OF assms] execute_high_outcome[OF assms]
  by (intro conjI)

theorem drain_executes_then_pops_witness:
  "heap_top front_max
   \<and> list_all no_adds [Queued_handler 10 (Task 1 [] True), Queued_handler 5 (Task 2 [] False)]
   \<and> (\<exists>r q'. execute_all front_max
          \<lparr>handlers = [Queued_handler 10 (Task 1 [] True), Queued_handler 5 (Task 2 [] False)],
           executed = []\<rparr> = Some (r, q')
        \<and> drain_outcome front_max
          \<lparr>handlers = [Queued_handler 10 (Task 1 [] True), Queued_handler 5 (Task 2 [] False)],
           executed = []\<rparr> r q'
        \<and> (isl r \<longrightarrow> execute_all front_max q'
              = Some (r, q'\<lparr>executed := executed q' @ [front_max (handlers q')]\<rparr>)))"
proof -
  let ?q = "\<lparr>handlers = [Queued_handler 10 (Task 1 [] True), Queued_handler 5 (Task 2 [] False)],
           executed = []\<rparr>"
  have h: "\<forall>h \<in> set (handlers ?q). no_adds h" by (simp add: no_adds_def)
  have l: "list_all no_adds [Queued_handler 10 (Task 1 [] True), Queued_handler 5 (Task 2 [] False)]"
    by (simp add: no_adds_def)
  from drain_executes_then_pops[OF heap_top_front_max h]
  have "\<exists>r q'. execute_all front_max ?q = Some (r, q') \<and> drain_outcome front_max ?q r q'
        \<and> (isl r \<longrightarrow> execute_all front_max q'
              = Some (r, q'\<lparr>executed := executed q' @ [front_max (handlers q')]\<rparr>))"
    by (rule conjunct1)
  then show ?thesis using heap_top_front_max l by (intro conjI)
qed

text \<open>
  Claim C2 as stated fails. A task that raises is not popped: after the exception it is
  still in the queue, and the next drain call executes it a second time.
\<close>

theorem drain_pops_before_execute_counterexample:
  "execute_all front_max
     \<lparr>handlers = [Queued_handler 10 (Task 1 [] True), Queued_handler 5 (Task 2 [] False)],
      executed = []\<rparr>
   = Some (Inl (task_error 1),
       \<lparr>handlers = [Queued_handler 10 (Task 1 [] True), Queued_handler 5 (Task 2 [] False)],
        executed = [Queued_handler 10 (Task 1 [] True)]\<rparr>)
   \<and> execute_all front_max
     \<lparr>handlers = [Queued_handler 10 (Task 1 [] True), Queued_handler 5 (Task 2 [] False)],
      executed = [Queued_handler 10 (Task 1 [] True)]\<rparr>
   = Some (Inl (task_error 1),
       \<lparr>handlers = [Queued_handler 10 (Task 1 [] True), Queued_handler 5 (Task 2 [] False)],
        executed = [Queued_handler 10 (Task 1 [] True), Queued_handler 10 (Task 1 [] True)]\<rparr>)"
  by (simp add: execute_all.simps pq_empty_def execute_def Let_def)



section \<open>The executor's verbs\<close>

text \<open>
  Claim C3. The three verbs of the executor do the same thing: each is
  \<^verbatim>\<open>add(priority_, f)\<close> on the queue, whatever the allocator; the task is put into the
  queue with the bound priority and it is not executed (the log of executed handlers is
  what it was).
\<close>

theorem executor_verbs_enqueue:
  "executor_dispatch ex f a q = add (bound_priority ex) f q
   \<and> executor_post ex f b q = add (bound_priority ex) f q
   \<and> executor_defer ex f c q = add (bound_priority ex) f q
   \<and> handlers (add (bound_priority ex) f q) = handlers q @ [Queued_handler (bound_priority ex) f]
   \<and> executed (add (bound_priority ex) f q) = executed q"
  by (simp add: executor_dispatch_def executor_post_def executor_defer_def add_def pq_push_def)

section \<open>Tasks that add to the queue, and the claims about the order of execution\<close>






section \<open>Method invocation under the first-success policy\<close>


lemma first_success_found:
  assumes "list_all (\<lambda>x. isl (slot_fn x args)) pre" and "slot_fn s args = Inr r"
  shows "first_success pol args (pre @ s # post) lg =
           (Inr r,
            pol\<lparr>err := foldl append_diagnostic (err pol) (map (\<lambda>x. projl (slot_fn x args)) pre)\<rparr>,
            lg @ map slot_id pre @ [slot_id s])"
  using assms
proof (induction pre arbitrary: pol lg)
  case Nil
  then show ?case by simp
next
  case (Cons x pre)
  then obtain d where d: "slot_fn x args = Inl d" by (cases "slot_fn x args") auto
  have "list_all (\<lambda>x. isl (slot_fn x args)) pre" using Cons.prems(1) by simp
  from Cons.IH[OF this Cons.prems(2)] show ?case using d by simp
qed

lemma first_success_all_raise:
  assumes "list_all (\<lambda>x. isl (slot_fn x args)) ss"
  shows "first_success pol args ss lg =
           (Inl (length_error (no_result_prefix
                  @ foldl append_diagnostic (err pol) (map (\<lambda>x. projl (slot_fn x args)) ss) @ '']'')),
            pol\<lparr>err := foldl append_diagnostic (err pol) (map (\<lambda>x. projl (slot_fn x args)) ss)\<rparr>,
            lg @ map slot_id ss)"
  using assms
proof (induction ss arbitrary: pol lg)
  case Nil
  then show ?case by simp
next
  case (Cons x ss)
  then obtain d where d: "slot_fn x args = Inl d" by (cases "slot_fn x args") auto
  have "list_all (\<lambda>x. isl (slot_fn x args)) ss" using Cons.prems(1) by simp
  from Cons.IH[OF this] show ?case using d by simp
qed

lemma first_success_fails_iff:
  "isl (fst (first_success pol args ss lg)) = list_all (\<lambda>x. isl (slot_fn x args)) ss"
  by (induction ss arbitrary: pol lg) (auto split: sum.splits)

lemma invoke_fails_iff:
  "isl (fst (invoke m args)) = list_all (\<lambda>x. isl (slot_fn x args)) (filter slot_connected (providers m))"
  using first_success_fails_iff[of "combiner m" args "filter slot_connected (providers m)" "providers_run m"]
  by (cases "first_success (combiner m) args (filter slot_connected (providers m)) (providers_run m)")
     (simp add: invoke_def)

lemma sorted_connect_grouped:
  "sorted (map slot_group ss) \<Longrightarrow> sorted (map slot_group (connect_grouped s ss))"
proof (induction ss)
  case Nil
  then show ?case by simp
next
  case (Cons x ss)
  have set_cg: "\<And>ys. set (connect_grouped s ys) = insert s (set ys)"
  proof -
    fix ys show "set (connect_grouped s ys) = insert s (set ys)"
      by (induction ys) auto
  qed
  show ?case
  proof (cases "slot_group s < slot_group x")
    case True
    then show ?thesis using Cons.prems by auto
  next
    case False
    then show ?thesis using Cons by (auto simp: set_cg)
  qed
qed

lemma sorted_register_provider:
  "sorted (map slot_group (providers m)) \<Longrightarrow>
   sorted (map slot_group (providers (snd (register_provider f p m))))"
  by (simp add: register_provider_def sorted_connect_grouped)

lemma sorted_register_all:
  "sorted (map slot_group (providers m)) \<Longrightarrow>
   sorted (map slot_group (providers (register_all regs m)))"
  unfolding register_all_def
  by (induction regs arbitrary: m) (auto simp: sorted_register_provider)

lemma sorted_filter_groups:
  "sorted (map slot_group ss) \<Longrightarrow> sorted (map slot_group (filter P ss))"
  by (induction ss) auto


lemma invoke_first_success:
  assumes vis: "filter slot_connected (providers m) = pre @ s # post"
    and pre: "list_all (\<lambda>x. isl (slot_fn x args)) pre"
    and ok: "slot_fn s args = Inr r"
  shows "invoke m args =
           (Inr r,
            m\<lparr>combiner :=
                 (combiner m)\<lparr>err := foldl append_diagnostic (err (combiner m))
                                       (map (\<lambda>x. projl (slot_fn x args)) pre)\<rparr>,
              providers_run := providers_run m @ map slot_id pre @ [slot_id s]\<rparr>)"
  unfolding invoke_def vis first_success_found[OF pre ok] by simp

text \<open>
  Where a registration puts the provider: behind the providers of a priority value not
  greater than its own, before those of a greater one; nothing else in the list
  changes.
\<close>

lemma connect_grouped_position:
  "connect_grouped s ss =
     takeWhile (\<lambda>x. slot_group x \<le> slot_group s) ss @ s
       # dropWhile (\<lambda>x. slot_group x \<le> slot_group s) ss"
  by (induction ss) auto

lemma register_provider_position:
  "providers (snd (register_provider f p m)) =
     takeWhile (\<lambda>x. slot_group x \<le> p) (providers m)
       @ \<lparr>slot_group = p, slot_id = next_provider m, slot_fn = f, slot_connected = True\<rparr>
       # dropWhile (\<lambda>x. slot_group x \<le> p) (providers m)"
  by (simp add: register_provider_def connect_grouped_position)

lemma mset_connect_grouped: "mset (connect_grouped s ss) = add_mset s (mset ss)"
  by (induction ss) auto

lemma register_provider_mset:
  "mset (providers (snd (register_provider f p m))) =
     add_mset \<lparr>slot_group = p, slot_id = next_provider m, slot_fn = f, slot_connected = True\<rparr>
       (mset (providers m))"
  by (simp add: register_provider_def mset_connect_grouped)


text \<open>
  Claim C5: the code departs from it, by the same member \<^verbatim>\<open>err\<close>. The policy object belongs to the signal and is
  called at every invocation, and \<^verbatim>\<open>err\<close> is a member that is never cleared; the
  diagnostics of earlier invocations stay in it. A method with one provider that raises
  \<^verbatim>\<open>e1\<close> is invoked, which fails with the diagnostic list \<^verbatim>\<open>[e1]\<close>; the provider is
  unregistered; the method, now without providers, is invoked again: the error carries
  the list \<^verbatim>\<open>[e1]\<close>, not the empty list. Invoked twice with the provider registered, the
  second error lists \<^verbatim>\<open>e1\<close> twice.
\<close>

theorem invoke_reports_stale_diagnostics:
  "fst (invoke (snd (register_provider (\<lambda>u::unit. Inl ''e1'' :: string + string) 0 new_method)) ())
     = Inl (length_error ''No Result Available, All providers returned exceptions[e1]'')
   \<and> num_slots (providers
        (unregister (fst (register_provider (\<lambda>u::unit. Inl ''e1'' :: string + string) 0 new_method))
           (snd (invoke (snd (register_provider (\<lambda>u::unit. Inl ''e1'' :: string + string) 0 new_method)) ()))))
     = 0
   \<and> fst (invoke
        (unregister (fst (register_provider (\<lambda>u::unit. Inl ''e1'' :: string + string) 0 new_method))
           (snd (invoke (snd (register_provider (\<lambda>u::unit. Inl ''e1'' :: string + string) 0 new_method)) ())))
        ())
     = Inl (length_error ''No Result Available, All providers returned exceptions[e1]'')
   \<and> fst (invoke
        (snd (invoke (snd (register_provider (\<lambda>u::unit. Inl ''e1'' :: string + string) 0 new_method)) ()))
        ())
     = Inl (length_error
         (''No Result Available, All providers returned exceptions[e1'' @ [CHR 0x22, CHR '','', CHR 0x22]
            @ ''e1]''))"
  by (simp add: invoke_def register_provider_def new_method_def unregister_def connected_def
        disconnect_def num_slots_def no_result_prefix_def append_diagnostic_def err_separator_def)

text \<open>
  On a policy whose \<^verbatim>\<open>err\<close> is empty the code does what claim C5 says: a call with no
  connected provider fails with the empty list, and a call whose providers all raise
  fails with their diagnostics in the order of the visit.
\<close>

lemma invoke_no_providers_fresh:
  assumes "filter slot_connected (providers m) = []" and "err (combiner m) = []"
  shows "fst (invoke m args) = Inl (length_error ''No Result Available, All providers returned exceptions[]'')"
  using assms by (simp add: invoke_def no_result_prefix_def)

lemma invoke_all_raise:
  assumes "list_all (\<lambda>x. isl (slot_fn x args)) (filter slot_connected (providers m))"
  shows "fst (invoke m args) =
           Inl (length_error (no_result_prefix
                  @ foldl append_diagnostic (err (combiner m))
                      (map (\<lambda>x. projl (slot_fn x args)) (filter slot_connected (providers m)))
                  @ '']''))"
  unfolding invoke_def first_success_all_raise[OF assms] by simp

section \<open>Publishing on a channel\<close>


lemma drop_exceptions_all:
  "drop_exceptions d ss lg = (Inr (), lg @ map (\<lambda>s. (slot_id s, d)) ss)"
  by (induction ss arbitrary: lg) (auto split: sum.splits)

lemma fan_out_all:
  "fan_out d ch =
     (Inr (), ch\<lparr>delivered := delivered ch
                @ map (\<lambda>s. (slot_id s, d)) (filter slot_connected (subscribers ch))\<rparr>)"
  by (simp add: fan_out_def drop_exceptions_all)

lemma count_list_map_distinct:
  assumes "distinct (map f xs)" and "x \<in> set xs"
  shows "count_list (map (\<lambda>s. (f s, d)) xs) (f x, d) = 1"
  using assms
proof (induction xs)
  case Nil
  then show ?case by simp
next
  case (Cons y ys)
  show ?case
  proof (cases "x = y")
    case True
    have "f y \<notin> f ` set ys" using Cons.prems(1) by simp
    then have "(f y, d) \<notin> set (map (\<lambda>s. (f s, d)) ys)" by auto
    then have "count_list (map (\<lambda>s. (f s, d)) ys) (f y, d) = 0"
      by (simp add: count_list_0_iff)
    then show ?thesis using True by simp
  next
    case False
    then have xin: "x \<in> set ys" using Cons.prems(2) by simp
    have "f y \<noteq> f x" using Cons.prems(1) xin by auto
    moreover have "count_list (map (\<lambda>s. (f s, d)) ys) (f x, d) = 1"
      using Cons.IH Cons.prems(1) xin by simp
    ultimately show ?thesis by simp
  qed
qed

text \<open>
  Claim C6. On a channel without a connected subscriber \<^verbatim>\<open>publish\<close> changes nothing:
  nothing is posted to the dispatcher and no copy of the payload is made. On a channel
  with a connected subscriber \<^verbatim>\<open>publish\<close> makes one copy of the payload and posts one
  task holding it, behind the tasks already posted; no subscriber is called by
  \<^verbatim>\<open>publish\<close> (the log of calls is what it was), and the subscribers are as they were.
\<close>

theorem publish_posts_or_does_nothing:
  "(num_slots (subscribers ch) = 0 \<longrightarrow> publish d ch = ch)
   \<and> (0 < num_slots (subscribers ch) \<longrightarrow>
        ios_posted (publish d ch) = ios_posted ch @ [d]
        \<and> data_copies (publish d ch) = Suc (data_copies ch)
        \<and> delivered (publish d ch) = delivered ch
        \<and> subscribers (publish d ch) = subscribers ch)"
  by (simp add: publish_def has_subscribers_def)

theorem publish_posts_or_does_nothing_witness:
  "num_slots (subscribers (new_channel :: nat channel)) = 0
   \<and> publish 7 (new_channel :: nat channel) = new_channel
   \<and> 0 < num_slots (subscribers (snd (subscribe (\<lambda>d. Inr ()) (new_channel :: nat channel))))
   \<and> ios_posted (publish 7 (snd (subscribe (\<lambda>d. Inr ()) (new_channel :: nat channel)))) = [7]
   \<and> data_copies (publish 7 (snd (subscribe (\<lambda>d. Inr ()) (new_channel :: nat channel)))) = 1
   \<and> delivered (publish 7 (snd (subscribe (\<lambda>d. Inr ()) (new_channel :: nat channel)))) = []"
proof -
  let ?c0 = "new_channel :: nat channel"
  let ?c1 = "snd (subscribe (\<lambda>d. Inr ()) (new_channel :: nat channel))"
  have z: "num_slots (subscribers ?c0) = 0" by (simp add: new_channel_def num_slots_def)
  have p: "0 < num_slots (subscribers ?c1)"
    by (simp add: new_channel_def num_slots_def subscribe_def)
  have a: "publish 7 ?c0 = ?c0"
    using publish_posts_or_does_nothing[of ?c0 7] z by blast
  have "ios_posted (publish 7 ?c1) = ios_posted ?c1 @ [7]
        \<and> data_copies (publish 7 ?c1) = Suc (data_copies ?c1)
        \<and> delivered (publish 7 ?c1) = delivered ?c1
        \<and> subscribers (publish 7 ?c1) = subscribers ?c1"
    using publish_posts_or_does_nothing[of ?c1 7] p by blast
  then have b: "ios_posted (publish 7 ?c1) = [7]" "data_copies (publish 7 ?c1) = 1"
      "delivered (publish 7 ?c1) = []"
    by (simp_all add: subscribe_def new_channel_def)
  show ?thesis using z a p b by (intro conjI)
qed

text \<open>
  Claim C7. Under \<^verbatim>\<open>drop_exceptions\<close> the fan-out of a publish runs every connected
  subscriber, in the order of the slots, whatever each of them returns or raises, and
  ends normally: no error reaches the dispatcher or the publisher. The identities of the
  slots being distinct, each connected subscriber is called exactly once with the data
  published. The second part is the same for the task that \<^verbatim>\<open>publish\<close> posts, run by
  the dispatcher.
\<close>

theorem fan_out_calls_every_subscriber_once:
  "drop_exceptions d ss lg = (Inr (), lg @ map (\<lambda>s. (slot_id s, d)) ss)
   \<and> fan_out d ch =
       (Inr (), ch\<lparr>delivered := delivered ch
                  @ map (\<lambda>s. (slot_id s, d)) (filter slot_connected (subscribers ch))\<rparr>)
   \<and> (has_subscribers ch \<and> ios_posted ch = [] \<longrightarrow>
        run_posted (publish d ch) =
          (Inr (), ch\<lparr>data_copies := Suc (data_copies ch),
                      delivered := delivered ch
                        @ map (\<lambda>s. (slot_id s, d)) (filter slot_connected (subscribers ch))\<rparr>))
   \<and> (distinct (map slot_id (subscribers ch)) \<longrightarrow>
        (\<forall>s \<in> set (subscribers ch). slot_connected s \<longrightarrow>
           count_list (map (\<lambda>s. (slot_id s, d)) (filter slot_connected (subscribers ch)))
             (slot_id s, d) = 1))"
proof -
  have c: "has_subscribers ch \<and> ios_posted ch = [] \<longrightarrow>
        run_posted (publish d ch) =
          (Inr (), ch\<lparr>data_copies := Suc (data_copies ch),
                      delivered := delivered ch
                        @ map (\<lambda>s. (slot_id s, d)) (filter slot_connected (subscribers ch))\<rparr>)"
    by (simp add: run_posted_def publish_def fan_out_all)
  have e: "distinct (map slot_id (subscribers ch)) \<longrightarrow>
        (\<forall>s \<in> set (subscribers ch). slot_connected s \<longrightarrow>
           count_list (map (\<lambda>s. (slot_id s, d)) (filter slot_connected (subscribers ch)))
             (slot_id s, d) = 1)"
  proof (intro impI ballI)
    fix s assume dist: "distinct (map slot_id (subscribers ch))"
      and s: "s \<in> set (subscribers ch)" "slot_connected s"
    have d1: "distinct (map slot_id (filter slot_connected (subscribers ch)))"
      using dist by (rule distinct_map_filter)
    have "s \<in> set (filter slot_connected (subscribers ch))" using s by simp
    then show "count_list (map (\<lambda>s. (slot_id s, d)) (filter slot_connected (subscribers ch)))
             (slot_id s, d) = 1"
      by (rule count_list_map_distinct[OF d1])
  qed
  show ?thesis using drop_exceptions_all[of d ss lg] fan_out_all[of d ch] c e by (intro conjI)
qed


theorem fan_out_calls_every_subscriber_once_witness:
  "has_subscribers
     (snd (subscribe (\<lambda>d. Inr ()) (snd (subscribe (\<lambda>d. Inl ''boom'')
        (snd (subscribe (\<lambda>d. Inr ()) (new_channel :: nat channel)))))))
   \<and> fst (run_posted (publish 7
        (snd (subscribe (\<lambda>d. Inr ()) (snd (subscribe (\<lambda>d. Inl ''boom'')
           (snd (subscribe (\<lambda>d. Inr ()) (new_channel :: nat channel))))))))) = Inr ()
   \<and> delivered (snd (run_posted (publish 7
        (snd (subscribe (\<lambda>d. Inr ()) (snd (subscribe (\<lambda>d. Inl ''boom'')
           (snd (subscribe (\<lambda>d. Inr ()) (new_channel :: nat channel)))))))))) = [(0, 7), (1, 7), (2, 7)]"
proof -
  let ?ch = "snd (subscribe (\<lambda>d. Inr ()) (snd (subscribe (\<lambda>d. Inl ''boom'')
        (snd (subscribe (\<lambda>d. Inr ()) (new_channel :: nat channel))))))"
  have h: "has_subscribers ?ch"
    by (simp add: has_subscribers_def num_slots_def subscribe_def new_channel_def)
  have e: "ios_posted ?ch = []" by (simp add: subscribe_def new_channel_def)
  have "run_posted (publish 7 ?ch) =
          (Inr (), ?ch\<lparr>data_copies := Suc (data_copies ?ch),
                      delivered := delivered ?ch
                        @ map (\<lambda>s. (slot_id s, 7)) (filter slot_connected (subscribers ?ch))\<rparr>)"
    using fan_out_calls_every_subscriber_once[of 7 "[]" "[]" ?ch] h e by blast
  then have "fst (run_posted (publish 7 ?ch)) = Inr ()"
    and "delivered (snd (run_posted (publish 7 ?ch))) = [(0, 7), (1, 7), (2, 7)]"
    by (simp_all add: subscribe_def new_channel_def)
  then show ?thesis using h by (intro conjI)
qed

section \<open>Handles and connections\<close>


lemma set_connect_grouped: "set (connect_grouped s ss) = insert s (set ss)"
  by (induction ss) auto

lemma connected_iff:
  "connected c ss = (\<exists>i. c = Some i \<and> (\<exists>s \<in> set ss. slot_id s = i \<and> slot_connected s))"
  by (cases c) (auto simp: connected_def list_ex_iff)

lemma not_connected_disconnect: "\<not> connected c (disconnect c ss)"
proof (cases c)
  case None
  then show ?thesis by (simp add: connected_def)
next
  case (Some i)
  have "\<not> list_ex (\<lambda>s. slot_id s = i \<and> slot_connected s)
           (map (\<lambda>s. if slot_id s = i then s\<lparr>slot_connected := False\<rparr> else s) ss)"
    by (induction ss) simp_all
  then show ?thesis using Some by (simp add: connected_def disconnect_def)
qed

lemma disconnect_not_connected: "\<not> connected c ss \<Longrightarrow> filter slot_connected (disconnect c ss) = filter slot_connected ss"
proof (cases c)
  case None
  then show ?thesis by (simp add: disconnect_def)
next
  case (Some i)
  assume "\<not> connected c ss"
  then have "\<forall>s \<in> set ss. slot_id s = i \<longrightarrow> \<not> slot_connected s"
    using Some by (auto simp: connected_iff)
  then have "filter slot_connected (map (\<lambda>s. if slot_id s = i then s\<lparr>slot_connected := False\<rparr> else s) ss)
      = filter slot_connected ss"
    by (induction ss) auto
  then show ?thesis using Some by (simp add: disconnect_def)
qed

lemma disconnect_idem: "disconnect c (disconnect c ss) = disconnect c ss"
  by (cases c) (auto simp: disconnect_def)

lemma disconnect_others:
  "filter (\<lambda>s. Some (slot_id s) \<noteq> c) (disconnect c ss) = filter (\<lambda>s. Some (slot_id s) \<noteq> c) ss"
proof (cases c)
  case None
  then show ?thesis by (simp add: disconnect_def)
next
  case (Some i)
  have "filter (\<lambda>s. slot_id s \<noteq> i) (map (\<lambda>s. if slot_id s = i then s\<lparr>slot_connected := False\<rparr> else s) ss)
      = filter (\<lambda>s. slot_id s \<noteq> i) ss"
    by (induction ss) auto
  then show ?thesis using Some by (simp add: disconnect_def)
qed

lemma disconnect_absent:
  assumes "list_all (\<lambda>s. slot_id s < i) ss"
  shows "map (\<lambda>s. if slot_id s = i then s\<lparr>slot_connected := False\<rparr> else s) ss = ss"
  using assms by (induction ss) auto

lemma disconnect_fresh_grouped:
  assumes "list_all (\<lambda>s. slot_id s < i) ss" and "slot_id n = i"
  shows "filter slot_connected (disconnect (Some i) (connect_grouped n ss)) = filter slot_connected ss"
  using assms
proof (induction ss)
  case Nil
  then show ?case by (simp add: disconnect_def)
next
  case (Cons a ss)
  have a: "slot_id a \<noteq> i" using Cons.prems(1) by simp
  have all: "list_all (\<lambda>s. slot_id s < i) ss" using Cons.prems(1) by simp
  show ?case
  proof (cases "slot_group n < slot_group a")
    case True
    then show ?thesis using a Cons.prems(2) disconnect_absent[OF all] by (simp add: disconnect_def)
  next
    case False
    then show ?thesis using a Cons.IH[OF all Cons.prems(2)] by (simp add: disconnect_def)
  qed
qed

lemma disconnect_fresh_back:
  assumes "list_all (\<lambda>s. slot_id s < i) ss" and "slot_id n = i"
  shows "filter slot_connected (disconnect (Some i) (ss @ [n])) = filter slot_connected ss"
  using assms(2) disconnect_absent[OF assms(1)] by (simp add: disconnect_def)

lemma unregister_idem: "unregister h (unregister h m) = unregister h m"
  by (simp add: unregister_def not_connected_disconnect)

lemma unregister_others:
  "filter (\<lambda>s. Some (slot_id s) \<noteq> handle_connection h) (providers (unregister h m))
     = filter (\<lambda>s. Some (slot_id s) \<noteq> handle_connection h) (providers m)"
  by (simp add: unregister_def disconnect_others)

lemma register_then_destroy:
  assumes "list_all (\<lambda>s. slot_id s < next_provider m) (providers m)"
  shows "connected (handle_connection (fst (register_provider f p m)))
           (providers (snd (register_provider f p m)))"
    and "\<not> connected (handle_connection (fst (register_provider f p m)))
           (providers (destroy_handle (fst (register_provider f p m)) (snd (register_provider f p m))))"
    and "filter slot_connected
           (providers (destroy_handle (fst (register_provider f p m)) (snd (register_provider f p m))))
         = filter slot_connected (providers m)"
proof -
  let ?n = "\<lparr>slot_group = p, slot_id = next_provider m, slot_fn = f, slot_connected = True\<rparr>"
  have h: "handle_connection (fst (register_provider f p m)) = Some (next_provider m)"
    by (simp add: register_provider_def)
  have ps: "providers (snd (register_provider f p m)) = connect_grouped ?n (providers m)"
    by (simp add: register_provider_def)
  show c: "connected (handle_connection (fst (register_provider f p m)))
           (providers (snd (register_provider f p m)))"
    unfolding h ps by (simp add: connected_def list_ex_iff set_connect_grouped)
  have c': "connected (Some (next_provider m)) (connect_grouped ?n (providers m))"
    using c by (simp only: h ps)
  have d: "providers (destroy_handle (fst (register_provider f p m)) (snd (register_provider f p m)))
      = disconnect (Some (next_provider m)) (connect_grouped ?n (providers m))"
    using c' by (simp add: destroy_handle_def unregister_def register_provider_def)
  show "\<not> connected (handle_connection (fst (register_provider f p m)))
           (providers (destroy_handle (fst (register_provider f p m)) (snd (register_provider f p m))))"
    unfolding d unfolding h by (rule not_connected_disconnect)
  have "filter slot_connected (disconnect (Some (next_provider m)) (connect_grouped ?n (providers m)))
         = filter slot_connected (providers m)"
    by (rule disconnect_fresh_grouped[OF assms]) simp
  then show "filter slot_connected
           (providers (destroy_handle (fst (register_provider f p m)) (snd (register_provider f p m))))
         = filter slot_connected (providers m)"
    by (simp only: d)
qed

lemma subscribe_then_drop:
  assumes "list_all (\<lambda>s. slot_id s < next_subscriber ch) (subscribers ch)"
  shows "connected (fst (subscribe cb ch)) (subscribers (snd (subscribe cb ch)))"
    and "connected (fst (subscribe cb ch))
           (subscribers (destroy_connection (fst (subscribe cb ch)) (snd (subscribe cb ch))))"
    and "\<not> connected (fst (subscribe cb ch))
           (subscribers (unsubscribe (fst (subscribe cb ch)) (snd (subscribe cb ch))))"
    and "filter slot_connected
           (subscribers (unsubscribe (fst (subscribe cb ch)) (snd (subscribe cb ch))))
         = filter slot_connected (subscribers ch)"
proof -
  let ?n = "\<lparr>slot_group = 0, slot_id = next_subscriber ch, slot_fn = cb, slot_connected = True\<rparr>"
  have h: "fst (subscribe cb ch) = Some (next_subscriber ch)" by (simp add: subscribe_def)
  have ss: "subscribers (snd (subscribe cb ch)) = subscribers ch @ [?n]" by (simp add: subscribe_def)
  show c: "connected (fst (subscribe cb ch)) (subscribers (snd (subscribe cb ch)))"
    unfolding h ss by (simp add: connected_def list_ex_iff)
  then show "connected (fst (subscribe cb ch))
           (subscribers (destroy_connection (fst (subscribe cb ch)) (snd (subscribe cb ch))))"
    by (simp add: destroy_connection_def)
  have u: "subscribers (unsubscribe (fst (subscribe cb ch)) (snd (subscribe cb ch)))
      = disconnect (Some (next_subscriber ch)) (subscribers ch @ [?n])"
    unfolding unsubscribe_def h ss by simp
  show "\<not> connected (fst (subscribe cb ch))
           (subscribers (unsubscribe (fst (subscribe cb ch)) (snd (subscribe cb ch))))"
    unfolding u unfolding h by (rule not_connected_disconnect)
  have "filter slot_connected (disconnect (Some (next_subscriber ch)) (subscribers ch @ [?n]))
         = filter slot_connected (subscribers ch)"
    by (rule disconnect_fresh_back[OF assms]) simp
  then show "filter slot_connected
           (subscribers (unsubscribe (fst (subscribe cb ch)) (snd (subscribe cb ch))))
         = filter slot_connected (subscribers ch)"
    by (simp only: u)
qed



text \<open>
  Claim C8, as the code has it. Only \<^verbatim>\<open>register_provider\<close> returns a handle that owns
  its entry. The handle it returns is connected; destroying it disconnects the entry and
  leaves the other providers connected as they were; \<^verbatim>\<open>unregister\<close> a second time, or
  the destruction after \<^verbatim>\<open>unregister\<close>, changes nothing, and \<^verbatim>\<open>unregister\<close> never
  touches an entry of another connection; a move gives the connection to the new handle
  and leaves the source empty, so that destroying the source changes nothing and
  destroying the new handle does what destroying the original would have done.
  \<^verbatim>\<open>subscribe\<close> returns the connection itself: when it goes out of scope the subscriber
  stays connected; \<^verbatim>\<open>unsubscribe\<close> disconnects the entry and no other, and a second
  \<^verbatim>\<open>unsubscribe\<close> changes nothing.
\<close>

theorem handle_owns_provider_entry:
  "(list_all (\<lambda>s. slot_id s < next_provider m) (providers m) \<longrightarrow>
      connected (handle_connection (fst (register_provider f p m)))
        (providers (snd (register_provider f p m)))
      \<and> \<not> connected (handle_connection (fst (register_provider f p m)))
          (providers (destroy_handle (fst (register_provider f p m)) (snd (register_provider f p m))))
      \<and> filter slot_connected
          (providers (destroy_handle (fst (register_provider f p m)) (snd (register_provider f p m))))
        = filter slot_connected (providers m))
   \<and> unregister h (unregister h m) = unregister h m
   \<and> destroy_handle h (unregister h m) = unregister h m
   \<and> filter (\<lambda>s. Some (slot_id s) \<noteq> handle_connection h) (providers (unregister h m))
       = filter (\<lambda>s. Some (slot_id s) \<noteq> handle_connection h) (providers m)
   \<and> handle_connection (snd (move_handle h)) = None
   \<and> destroy_handle (snd (move_handle h)) m = m
   \<and> destroy_handle (fst (move_handle h)) m = destroy_handle h m
   \<and> (list_all (\<lambda>s. slot_id s < next_subscriber ch) (subscribers ch) \<longrightarrow>
        connected (fst (subscribe cb ch)) (subscribers (snd (subscribe cb ch)))
        \<and> connected (fst (subscribe cb ch))
            (subscribers (destroy_connection (fst (subscribe cb ch)) (snd (subscribe cb ch))))
        \<and> \<not> connected (fst (subscribe cb ch))
            (subscribers (unsubscribe (fst (subscribe cb ch)) (snd (subscribe cb ch))))
        \<and> filter slot_connected
            (subscribers (unsubscribe (fst (subscribe cb ch)) (snd (subscribe cb ch))))
          = filter slot_connected (subscribers ch))
   \<and> unsubscribe c (unsubscribe c ch) = unsubscribe c ch
   \<and> filter (\<lambda>s. Some (slot_id s) \<noteq> c) (subscribers (unsubscribe c ch))
       = filter (\<lambda>s. Some (slot_id s) \<noteq> c) (subscribers ch)"
proof -
  have a: "list_all (\<lambda>s. slot_id s < next_provider m) (providers m) \<longrightarrow>
      connected (handle_connection (fst (register_provider f p m)))
        (providers (snd (register_provider f p m)))
      \<and> \<not> connected (handle_connection (fst (register_provider f p m)))
          (providers (destroy_handle (fst (register_provider f p m)) (snd (register_provider f p m))))
      \<and> filter slot_connected
          (providers (destroy_handle (fst (register_provider f p m)) (snd (register_provider f p m))))
        = filter slot_connected (providers m)"
    using register_then_destroy[of m f p] by blast
  have b: "unregister h (unregister h m) = unregister h m" by (rule unregister_idem)
  have b2: "destroy_handle h (unregister h m) = unregister h m"
    unfolding destroy_handle_def by (rule unregister_idem)
  have b3: "filter (\<lambda>s. Some (slot_id s) \<noteq> handle_connection h) (providers (unregister h m))
       = filter (\<lambda>s. Some (slot_id s) \<noteq> handle_connection h) (providers m)"
    by (rule unregister_others)
  have m0: "handle_connection (snd (move_handle h)) = None" by (simp add: move_handle_def)
  have m1: "destroy_handle (snd (move_handle h)) m = m"
    by (simp add: move_handle_def destroy_handle_def unregister_def connected_def)
  have m2: "destroy_handle (fst (move_handle h)) m = destroy_handle h m"
    by (simp add: move_handle_def destroy_handle_def unregister_def)
  have s: "list_all (\<lambda>s. slot_id s < next_subscriber ch) (subscribers ch) \<longrightarrow>
        connected (fst (subscribe cb ch)) (subscribers (snd (subscribe cb ch)))
        \<and> connected (fst (subscribe cb ch))
            (subscribers (destroy_connection (fst (subscribe cb ch)) (snd (subscribe cb ch))))
        \<and> \<not> connected (fst (subscribe cb ch))
            (subscribers (unsubscribe (fst (subscribe cb ch)) (snd (subscribe cb ch))))
        \<and> filter slot_connected
            (subscribers (unsubscribe (fst (subscribe cb ch)) (snd (subscribe cb ch))))
          = filter slot_connected (subscribers ch)"
    using subscribe_then_drop[of ch cb] by blast
  have u: "unsubscribe c (unsubscribe c ch) = unsubscribe c ch"
    by (simp add: unsubscribe_def disconnect_idem)
  have u2: "filter (\<lambda>s. Some (slot_id s) \<noteq> c) (subscribers (unsubscribe c ch))
       = filter (\<lambda>s. Some (slot_id s) \<noteq> c) (subscribers ch)"
    by (simp add: unsubscribe_def disconnect_others)
  show ?thesis using a b b2 b3 m0 m1 m2 s u u2 by (intro conjI)
qed

theorem handle_owns_provider_entry_witness:
  "list_all (\<lambda>s. slot_id s < next_provider (new_method :: (unit, nat) appbase_method))
      (providers (new_method :: (unit, nat) appbase_method))
   \<and> connected (handle_connection (fst (register_provider (\<lambda>u. Inr 1) 0 (new_method :: (unit, nat) appbase_method))))
        (providers (snd (register_provider (\<lambda>u. Inr 1) 0 (new_method :: (unit, nat) appbase_method))))
   \<and> filter slot_connected
        (providers (destroy_handle (fst (register_provider (\<lambda>u. Inr 1) 0 (new_method :: (unit, nat) appbase_method)))
           (snd (register_provider (\<lambda>u. Inr 1) 0 (new_method :: (unit, nat) appbase_method))))) = []
   \<and> list_all (\<lambda>s. slot_id s < next_subscriber (new_channel :: nat channel))
        (subscribers (new_channel :: nat channel))
   \<and> connected (fst (subscribe (\<lambda>d. Inr ()) (new_channel :: nat channel)))
        (subscribers (destroy_connection (fst (subscribe (\<lambda>d. Inr ()) (new_channel :: nat channel)))
           (snd (subscribe (\<lambda>d. Inr ()) (new_channel :: nat channel)))))
   \<and> filter slot_connected
        (subscribers (unsubscribe (fst (subscribe (\<lambda>d. Inr ()) (new_channel :: nat channel)))
           (snd (subscribe (\<lambda>d. Inr ()) (new_channel :: nat channel))))) = []"
proof -
  let ?m = "new_method :: (unit, nat) appbase_method"
  let ?ch = "new_channel :: nat channel"
  have wm: "list_all (\<lambda>s. slot_id s < next_provider ?m) (providers ?m)"
    by (simp add: new_method_def)
  have wc: "list_all (\<lambda>s. slot_id s < next_subscriber ?ch) (subscribers ?ch)"
    by (simp add: new_channel_def)
  note t = handle_owns_provider_entry[of ?m "\<lambda>u. Inr 1" 0 _ ?ch "\<lambda>d. Inr ()"]
  have a: "connected (handle_connection (fst (register_provider (\<lambda>u. Inr 1) 0 ?m)))
        (providers (snd (register_provider (\<lambda>u. Inr 1) 0 ?m)))"
    and b: "filter slot_connected
        (providers (destroy_handle (fst (register_provider (\<lambda>u. Inr 1) 0 ?m))
           (snd (register_provider (\<lambda>u. Inr 1) 0 ?m)))) = filter slot_connected (providers ?m)"
    using t wm by blast+
  have c: "connected (fst (subscribe (\<lambda>d. Inr ()) ?ch))
        (subscribers (destroy_connection (fst (subscribe (\<lambda>d. Inr ()) ?ch))
           (snd (subscribe (\<lambda>d. Inr ()) ?ch))))"
    and d: "filter slot_connected
        (subscribers (unsubscribe (fst (subscribe (\<lambda>d. Inr ()) ?ch))
           (snd (subscribe (\<lambda>d. Inr ()) ?ch)))) = filter slot_connected (subscribers ?ch)"
    using t wc by blast+
  have b': "filter slot_connected
        (providers (destroy_handle (fst (register_provider (\<lambda>u. Inr 1) 0 ?m))
           (snd (register_provider (\<lambda>u. Inr 1) 0 ?m)))) = []"
    unfolding b by (simp add: new_method_def)
  have d': "filter slot_connected
        (subscribers (unsubscribe (fst (subscribe (\<lambda>d. Inr ()) ?ch))
           (snd (subscribe (\<lambda>d. Inr ()) ?ch)))) = []"
    unfolding d by (simp add: new_channel_def)
  show ?thesis using wm a b' wc c d' by (intro conjI)
qed

text \<open>
  Claim C8 as stated fails for the channel: the handle that \<^verbatim>\<open>subscribe\<close> returns does
  not disconnect the entry when it is destroyed. After a subscription whose handle has
  gone out of scope the channel still has its subscriber, and a publish is still
  delivered to it.
\<close>

theorem subscribe_handle_counterexample:
  "has_subscribers
     (destroy_connection (fst (subscribe (\<lambda>d. Inr ()) (new_channel :: nat channel)))
        (snd (subscribe (\<lambda>d. Inr ()) (new_channel :: nat channel))))
   \<and> delivered (snd (run_posted (publish 7
        (destroy_connection (fst (subscribe (\<lambda>d. Inr ()) (new_channel :: nat channel)))
           (snd (subscribe (\<lambda>d. Inr ()) (new_channel :: nat channel))))))) = [(0, 7)]"
  by (simp add: has_subscribers_def num_slots_def destroy_connection_def subscribe_def
        new_channel_def publish_def run_posted_def fan_out_def)

end
